theory Spec2Isabelle
  imports Main
begin

section \<open>The hexagonal board of board.py\<close>

text \<open>
  The module defines two classes. A \<open>Tile\<close> is one hexagon of the board: it knows its six
  neighbours (\<open>None\<close> where the board ends), the element lying on it (\<open>None\<close> when it is
  empty) and a cached answer to "can this tile be taken" (\<open>_legal\<close>: \<open>None\<close> when unknown).
  A \<open>Tileset\<close> owns the tiles, a padded rectangular array of them, and a catalog from
  element to the tiles that carry it.

  Python compares tiles by identity. Every tile of a board is built with its own grid
  coordinate \<open>Tile(x - hoffset, y)\<close>, so the coordinate \<open>xy\<close> serves as the address of the
  object, and the objects live in a store from addresses to field values. Elements are
  the strings of the game (\<open>'water'\<close>, \<open>'mercury'\<close>, ...). The pixel geometry of a tile
  (\<open>origin\<close>, \<open>rect\<close>, \<open>sample_rect\<close>) comes from the external geometry module and plays no
  part in what follows; of the geometry only \<open>radius\<close> is read, and it is a parameter here.
\<close>

unbundle bit_operations_syntax

subsection \<open>Errors and list indexing\<close>

datatype error = IndexError | AttributeError

definition py_index :: "nat \<Rightarrow> int \<Rightarrow> nat option" where
  \<comment> \<open>the position that index \<open>i\<close> denotes in a list of \<open>len\<close> items: an index below zero
      counts back from the end, and an index outside both ranges denotes nothing\<close>
  "py_index len i =
     (if 0 \<le> i \<and> i < int len then Some (nat i)
      else if i < 0 \<and> - int len \<le> i then Some (nat (i + int len))
      else None)"

definition py_getitem :: "'a list \<Rightarrow> int \<Rightarrow> error + 'a" where
  \<comment> \<open>\<open>xs[i]\<close>\<close>
  "py_getitem xs i =
     (case py_index (length xs) i of None \<Rightarrow> Inl IndexError | Some k \<Rightarrow> Inr (xs ! k))"

definition py_setitem :: "'a list \<Rightarrow> int \<Rightarrow> 'a \<Rightarrow> error + 'a list" where
  \<comment> \<open>\<open>xs[i] = v\<close>\<close>
  "py_setitem xs i v =
     (case py_index (length xs) i of None \<Rightarrow> Inl IndexError | Some k \<Rightarrow> Inr (xs[k := v]))"

fun sequence_err :: "(error + 'a) list \<Rightarrow> error + 'a list" where
  \<comment> \<open>a list display \<open>[e0, e1, ...]\<close>: the items are evaluated from left to right and the
      first one that raises ends the evaluation\<close>
  "sequence_err [] = Inr []"
| "sequence_err (Inl e # rest) = Inl e"
| "sequence_err (Inr v # rest) =
     (case sequence_err rest of Inl e \<Rightarrow> Inl e | Inr vs \<Rightarrow> Inr (v # vs))"

subsection \<open>Tiles and the tileset\<close>

type_synonym handle = "int \<times> int"

record tile =
  neighbors :: "handle option list"
  element :: "string option"
  legal_cache :: "bool option"   \<comment> \<open>the field \<open>_legal\<close>\<close>

definition Tile_init :: tile where
  "Tile_init = \<lparr>neighbors = [], element = None, legal_cache = None\<rparr>"

record tileset =
  rows :: "handle option list list"
  tiles :: "handle list"
  objs :: "handle \<Rightarrow> tile"     \<comment> \<open>the tile objects, by address\<close>
  catalog :: "string \<rightharpoonup> handle set"

definition REQUIRED_ADJACENT :: nat where
  "REQUIRED_ADJACENT = 3"

definition set_legal :: "handle \<Rightarrow> bool option \<Rightarrow> tileset \<Rightarrow> tileset" where
  \<comment> \<open>\<open>self._legal = v\<close>\<close>
  "set_legal self v b = b\<lparr>objs := (objs b)(self := (objs b self)\<lparr>legal_cache := v\<rparr>)\<rparr>"

definition real_neighbors :: "tileset \<Rightarrow> handle \<Rightarrow> handle list" where
  "real_neighbors b self = List.map_filter (\<lambda>n. n) (neighbors (objs b self))"

definition nonempty_neighbors :: "tileset \<Rightarrow> handle \<Rightarrow> handle list" where
  "nonempty_neighbors b self =
     filter (\<lambda>n. element (objs b n) \<noteq> None) (real_neighbors b self)"

definition expire_legality :: "handle \<Rightarrow> bool option \<Rightarrow> tileset \<Rightarrow> tileset" where
  "expire_legality self onlyif b =
     (if onlyif \<noteq> None \<and> legal_cache (objs b self) \<noteq> onlyif then b
      else set_legal self None b)"

subsection \<open>Predicting legality\<close>

text \<open>
  The generator \<open>_gen\<close> of \<open>predict_legality\<close> walks the neighbours and yields a pair
  (actual, predicted) for each; it remembers up to \<open>REQUIRED_ADJACENT - 1\<close> of the pairs
  in \<open>cache\<close> and yields them again at the end. Its only effects are on its own local
  variables, so the sequence it can yield is a list. A container of tiles (the argument
  \<open>removed\<close>) may hold \<open>None\<close> beside tiles, hence a set of optional handles.
\<close>

fun gen :: "(handle \<Rightarrow> tile) \<Rightarrow> handle option set \<Rightarrow> handle option list \<Rightarrow>
            (bool \<times> bool) list \<Rightarrow> nat \<Rightarrow> (bool \<times> bool) list" where
  "gen heap removed [] cache cache_count = cache"
| "gen heap removed (neighbor # rest) cache cache_count =
     (let (result, cache_count1) =
            (case neighbor of
               None \<Rightarrow> ((True, True), cache_count)
             | Some n \<Rightarrow>
                 if element (heap n) = None then ((True, True), cache_count)
                 else if Some n \<in> removed then ((False, True), cache_count)
                 else ((False, False), 0));
          (cache', cache_count2) =
            (if cache_count1 \<noteq> 0 then (cache @ [result], cache_count1 - 1)
             else (cache, cache_count1))
      in result # gen heap removed rest cache' cache_count2)"

datatype scan_result = Bail | Fallthrough bool

fun scan :: "(bool \<times> bool) list \<Rightarrow> nat \<Rightarrow> nat \<Rightarrow> bool \<Rightarrow> scan_result" where
  \<comment> \<open>the \<open>for actual, predicted in _gen()\<close> loop: \<open>Bail\<close> is the \<open>return True\<close> inside it,
      \<open>Fallthrough result\<close> is leaving the loop at its end\<close>
  "scan [] actual_run predicted_run result = Fallthrough result"
| "scan ((actual, predicted) # rest) actual_run predicted_run result =
     (if actual \<and> actual_run + 1 \<ge> REQUIRED_ADJACENT then Bail
      else scan rest
             (if actual then actual_run + 1 else 0)
             (if predicted then predicted_run + 1 else 0)
             (if predicted \<and> predicted_run + 1 \<ge> REQUIRED_ADJACENT then True else result))"

definition predict_legality ::
  "handle \<Rightarrow> handle option set option \<Rightarrow> tileset \<Rightarrow> bool \<times> tileset" where
  "predict_legality self removed b =
     (if legal_cache (objs b self) = Some True then (True, b)
      else if (removed = None \<or> removed = Some {}) \<and> legal_cache (objs b self) = Some False
        then (False, b)
      else
        let removed' = (case removed of None \<Rightarrow> {} | Some r \<Rightarrow> r) in
        case scan (gen (objs b) removed' (neighbors (objs b self)) [] (REQUIRED_ADJACENT - 1))
               0 0 False of
          Bail \<Rightarrow> (True, set_legal self (Some True) b)
        | Fallthrough result \<Rightarrow> (result, set_legal self (Some False) b))"

definition legal :: "handle \<Rightarrow> tileset \<Rightarrow> bool \<times> tileset" where
  \<comment> \<open>the property \<open>Tile.legal\<close>\<close>
  "legal self b = predict_legality self None b"

subsection \<open>Impact of a removal\<close>

definition affected_neighbors :: "handle \<Rightarrow> tileset \<Rightarrow> handle list \<times> tileset" where
  "affected_neighbors self b =
     fold (\<lambda>neighbor (result, b0).
             case predict_legality neighbor (Some {Some self}) b0 of
               (p, b1) \<Rightarrow>
                 if p then
                   (case legal neighbor b1 of
                      (l, b2) \<Rightarrow> if l then (result, b2) else (result @ [neighbor], b2))
                 else (result, b1))
          (nonempty_neighbors b self) ([], b)"

text \<open>
  \<open>all_neighbors\<close> iterates over its argument twice: once in its \<open>for\<close> loop and once
  inside \<open>difference_update\<close>. A set or list can be iterated again; a generator is
  exhausted by the first iteration and yields nothing the second time.
\<close>

datatype 'a iterable = Container "'a set" | Generator "'a set"

fun iterate :: "'a iterable \<Rightarrow> 'a set \<times> 'a iterable" where
  "iterate (Container s) = (s, Container s)"
| "iterate (Generator s) = (s, Generator {})"

definition all_neighbors :: "handle option iterable \<Rightarrow> tileset \<Rightarrow> handle set" where
  "all_neighbors tiles_arg b =
     (case iterate tiles_arg of
        (first_pass, tiles_arg') \<Rightarrow>
          let nbrs = (\<Union>t \<in> first_pass.
                        case t of None \<Rightarrow> {} | Some h \<Rightarrow> set (real_neighbors b h))
          in case iterate tiles_arg' of
               (second_pass, _) \<Rightarrow> Set.filter (\<lambda>h. Some h \<notin> second_pass) nbrs)"

text \<open>
  \<open>affected_tiles\<close> loops over the set that \<open>all_neighbors\<close> returns. Python fixes no
  order for that loop, so the order is a parameter: \<open>order\<close> is any list of the members
  of the set, each once.
\<close>

definition affected_candidates :: "handle option set \<Rightarrow> tileset \<Rightarrow> handle set" where
  \<comment> \<open>\<open>cls.all_neighbors(tile for tile in tiles if tile is not None and tile.element is not None)\<close>\<close>
  "affected_candidates tiles_arg b =
     all_neighbors
       (Generator (Set.filter (\<lambda>t. case t of None \<Rightarrow> False
                                    | Some h \<Rightarrow> element (objs b h) \<noteq> None) tiles_arg)) b"

definition affected_tiles ::
  "handle list \<Rightarrow> handle option set \<Rightarrow> tileset \<Rightarrow> handle set \<times> tileset" where
  "affected_tiles order tiles_arg b =
     fold (\<lambda>t (affected, b0).
             if element (objs b0 t) = None then (affected, b0)
             else
               case predict_legality t (Some tiles_arg) b0 of
                 (p, b1) \<Rightarrow>
                   if p then
                     (case legal t b1 of
                        (l, b2) \<Rightarrow> if \<not> l then (insert t affected, b2) else (affected, b2))
                   else (affected, b1))
          order ({}, b)"

subsection \<open>Building the board\<close>

definition blank_row :: "int \<Rightarrow> handle option list" where
  \<comment> \<open>\<open>list(itertools.repeat(None, diameter + 2))\<close>; a negative count repeats nothing\<close>
  "blank_row diameter = replicate (nat (diameter + 2)) None"

text \<open>
  The inner loop \<open>for x in range(start, start+count)\<close> creates the tiles of one row. The
  row was appended to \<open>self.rows\<close> before the loop and is filled in place; the model fills
  the row first and appends it afterwards, which gives the same \<open>rows\<close>.
\<close>

fun fill_row :: "int \<Rightarrow> int \<Rightarrow> int list \<Rightarrow> tileset \<Rightarrow> handle option list \<Rightarrow>
                 error + (tileset \<times> handle option list)" where
  "fill_row hoffset y [] b row = Inr (b, row)"
| "fill_row hoffset y (x # xs) b row =
     (let t = (x - hoffset, y) in
      case py_setitem row (x + 1) (Some t) of
        Inl e \<Rightarrow> Inl e
      | Inr row' \<Rightarrow>
          fill_row hoffset y xs
            (b\<lparr>tiles := tiles b @ [t], objs := (objs b)(t := Tile_init)\<rparr>) row')"

fun build_rows :: "int \<Rightarrow> int list \<Rightarrow> tileset \<Rightarrow> error + tileset" where
  "build_rows radius [] b = Inr b"
| "build_rows radius (y # ys) b =
     (let diameter = 2 * radius - 1;
          hoffset = (radius - 1) div 2;
          count = diameter - \<bar>radius - (y + 1)\<bar>;
          start = (diameter - count) div 2
      in case fill_row hoffset y [start..start + count - 1] b (blank_row diameter) of
           Inl e \<Rightarrow> Inl e
         | Inr (b', row) \<Rightarrow> build_rows radius ys (b'\<lparr>rows := rows b' @ [row]\<rparr>))"

fun wire_row :: "handle option list \<Rightarrow> handle option list \<Rightarrow> handle option list \<Rightarrow> int \<Rightarrow>
                 (nat \<times> handle option) list \<Rightarrow> (handle \<Rightarrow> tile) \<Rightarrow> error + (handle \<Rightarrow> tile)" where
  "wire_row above_row row below_row altrow [] heap = Inr heap"
| "wire_row above_row row below_row altrow ((x, None) # rest) heap =
     wire_row above_row row below_row altrow rest heap"
| "wire_row above_row row below_row altrow ((x, Some t) # rest) heap =
     (case sequence_err
             [py_getitem row (int x - 1),
              py_getitem above_row (int x + altrow),
              py_getitem above_row (int x + altrow + 1),
              py_getitem row (int x + 1),
              py_getitem below_row (int x + altrow + 1),
              py_getitem below_row (int x + altrow)] of
        Inl e \<Rightarrow> Inl e
      | Inr ns \<Rightarrow>
          wire_row above_row row below_row altrow rest (heap(t := (heap t)\<lparr>neighbors := ns\<rparr>)))"

fun wire_rows :: "int \<Rightarrow> handle option list list \<Rightarrow> (nat \<times> handle option list) list \<Rightarrow>
                  (handle \<Rightarrow> tile) \<Rightarrow> error + (handle \<Rightarrow> tile)" where
  "wire_rows diameter all_rows [] heap = Inr heap"
| "wire_rows diameter all_rows ((y, row) # rest) heap =
     (let altrow = - ((int y + 1) mod 2) in
      if y = 0 \<or> int y > diameter then wire_rows diameter all_rows rest heap
      else
        case py_getitem all_rows (int y - 1) of
          Inl e \<Rightarrow> Inl e
        | Inr above_row \<Rightarrow>
            (case py_getitem all_rows (int y + 1) of
               Inl e \<Rightarrow> Inl e
             | Inr below_row \<Rightarrow>
                 (case wire_row above_row row below_row altrow (enumerate 0 row) heap of
                    Inl e \<Rightarrow> Inl e
                  | Inr heap' \<Rightarrow> wire_rows diameter all_rows rest heap')))"

definition Tileset_init :: "int \<Rightarrow> error + tileset" where
  "Tileset_init radius =
     (let diameter = 2 * radius - 1;
          b0 = \<lparr>rows = [blank_row diameter], tiles = [],
                objs = (\<lambda>h. Tile_init), catalog = Map.empty\<rparr>
      in case build_rows radius [0..diameter - 1] b0 of
           Inl e \<Rightarrow> Inl e
         | Inr b1 \<Rightarrow>
             (let b2 = b1\<lparr>rows := rows b1 @ [blank_row diameter]\<rparr> in
              (case wire_rows diameter (rows b2) (enumerate 0 (rows b2)) (objs b2) of
                 Inl e \<Rightarrow> Inl e
               | Inr heap \<Rightarrow> Inr (b2\<lparr>objs := heap\<rparr>))))"

subsection \<open>Changing an element\<close>

text \<open>
  \<open>self.catalog[previous]\<close> on a key that is absent calls \<open>__missing__\<close>, which returns an
  empty tuple, and a tuple has no \<open>discard\<close>: that is an AttributeError.
\<close>

definition element_changed ::
  "handle \<Rightarrow> string option \<Rightarrow> string option \<Rightarrow> tileset \<Rightarrow> error + tileset" where
  "element_changed t previous current b =
     (if previous = current then Inr b
      else
        case (case previous of
                None \<Rightarrow> Inr (catalog b)
              | Some p \<Rightarrow>
                  (case catalog b p of
                     None \<Rightarrow> Inl AttributeError
                   | Some s \<Rightarrow> Inr ((catalog b)(p \<mapsto> s - {t})))) of
          Inl e \<Rightarrow> Inl e
        | Inr cat1 \<Rightarrow>
            let cat2 = (case current of
                          None \<Rightarrow> cat1
                        | Some c \<Rightarrow>
                            cat1(c \<mapsto> insert t (case cat1 c of None \<Rightarrow> {} | Some s \<Rightarrow> s)));
                b' = b\<lparr>catalog := cat2\<rparr>
            in if (previous = None) = (current = None) then Inr b'
               else Inr (fold (\<lambda>neighbor. expire_legality neighbor (Some (previous = None)))
                              (real_neighbors b' t) b'))"

definition assign_element :: "handle \<Rightarrow> string option \<Rightarrow> tileset \<Rightarrow> tileset" where
  \<comment> \<open>\<open>self._element = value\<close>\<close>
  "assign_element self v b = b\<lparr>objs := (objs b)(self := (objs b self)\<lparr>element := v\<rparr>)\<rparr>"

definition set_element :: "handle \<Rightarrow> string option \<Rightarrow> tileset \<Rightarrow> error + tileset" where
  \<comment> \<open>the setter of \<open>Tile.element\<close>; every tile of a board has the board as \<open>parent\<close>\<close>
  "set_element self v b =
     (if v = element (objs b self) then Inr b
      else
        let previous = element (objs b self);
            b' = assign_element self v b
        in element_changed self previous v b')"

subsection \<open>Queries on the whole board\<close>

definition catalog_getitem :: "(string \<rightharpoonup> handle set) \<Rightarrow> string \<Rightarrow> handle set" where
  \<comment> \<open>\<open>self.catalog[e]\<close> read as a collection: \<open>__missing__\<close> gives an empty one\<close>
  "catalog_getitem cat e = (case cat e of None \<Rightarrow> {} | Some s \<Rightarrow> s)"

definition count :: "tileset \<Rightarrow> string \<Rightarrow> nat" where
  "count b e = card (catalog_getitem (catalog b) e)"

definition legal_tiles :: "tileset \<Rightarrow> handle set \<times> tileset" where
  "legal_tiles b =
     fold (\<lambda>t (acc, b0).
             case legal t b0 of
               (l, b1) \<Rightarrow> if l \<and> element (objs b1 t) \<noteq> None then (insert t acc, b1)
                          else (acc, b1))
          (tiles b) ({}, b)"

definition truthy :: "string option \<Rightarrow> bool" where
  \<comment> \<open>the truth value of an element in \<open>if tile.element:\<close>: \<open>None\<close> and the empty string are false\<close>
  "truthy e = (case e of None \<Rightarrow> False | Some s \<Rightarrow> s \<noteq> [])"

definition bitmap :: "tileset \<Rightarrow> int" where
  "bitmap b =
     fold (\<lambda>t result. let shifted = push_bit 1 result
                       in if truthy (element (objs b t)) then shifted OR 1 else shifted)
          (tiles b) 0"

subsection \<open>Callers\<close>

text \<open>
  What a caller can do to a board between two observations: set the element of a tile,
  read \<open>legal\<close> of a tile, or ask \<open>predict_legality\<close> about a tile under some \<open>removed\<close>.
  \<open>play radius ops\<close> builds a board and performs \<open>ops\<close> on it in order; an exception
  ends the run.
\<close>

datatype op =
    SetElement handle "string option"
  | ReadLegal handle
  | PredictLegality handle "handle option set option"

fun apply_op :: "op \<Rightarrow> tileset \<Rightarrow> error + tileset" where
  "apply_op (SetElement t v) b = set_element t v b"
| "apply_op (ReadLegal t) b = Inr (snd (legal t b))"
| "apply_op (PredictLegality t removed) b = Inr (snd (predict_legality t removed b))"

fun run :: "op list \<Rightarrow> tileset \<Rightarrow> error + tileset" where
  "run [] b = Inr b"
| "run (x # xs) b = (case apply_op x b of Inl e \<Rightarrow> Inl e | Inr b' \<Rightarrow> run xs b')"

definition play :: "int \<Rightarrow> op list \<Rightarrow> error + tileset" where
  "play radius ops = (case Tileset_init radius of Inl e \<Rightarrow> Inl e | Inr b \<Rightarrow> run ops b)"

fun op_tile :: "op \<Rightarrow> handle" where
  "op_tile (SetElement t v) = t"
| "op_tile (ReadLegal t) = t"
| "op_tile (PredictLegality t removed) = t"

subsection \<open>Notions used to state the properties\<close>

definition classify ::
  "(handle \<Rightarrow> tile) \<Rightarrow> handle option set \<Rightarrow> handle option \<Rightarrow> bool \<times> bool" where
  \<comment> \<open>the pair that \<open>_gen\<close> produces for one neighbour\<close>
  "classify heap removed neighbor =
     (case neighbor of
        None \<Rightarrow> (True, True)
      | Some n \<Rightarrow>
          if element (heap n) = None then (True, True)
          else if Some n \<in> removed then (False, True)
          else (False, False))"

definition circular_run :: "nat \<Rightarrow> bool list \<Rightarrow> bool" where
  \<comment> \<open>some \<open>k\<close> consecutive slots of the ring, going round, are all free\<close>
  "circular_run k xs =
     (\<exists>i \<in> {0..<length xs}. \<forall>j \<in> {0..<k}. xs ! ((i + j) mod length xs))"

definition free_slot :: "tileset \<Rightarrow> handle option \<Rightarrow> bool" where
  \<comment> \<open>a slot of a ring that is off the board or holds an empty tile\<close>
  "free_slot b n = (case n of None \<Rightarrow> True | Some h \<Rightarrow> element (objs b h) = None)"

definition recomputed_legal :: "tileset \<Rightarrow> handle \<Rightarrow> bool" where
  \<comment> \<open>legality computed afresh from the elements around the tile\<close>
  "recomputed_legal b t =
     circular_run REQUIRED_ADJACENT (map (free_slot b) (neighbors (objs b t)))"

subsection \<open>Example boards\<close>

definition seam_ops :: "op list" where
  \<comment> \<open>on the board of radius 2: fire left of the centre, water above right and below right\<close>
  "seam_ops = [SetElement (0, 1) (Some ''fire''), SetElement (1, 0) (Some ''water''),
               SetElement (1, 2) (Some ''water'')]"

definition read_ops :: "op list" where
  \<comment> \<open>on the empty board of radius 2: three tiles are asked whether they are legal\<close>
  "read_ops = [ReadLegal (0, 0), ReadLegal (1, 1), ReadLegal (1, 2)]"

definition seam_read_ops :: "op list" where
  \<comment> \<open>the board of \<open>seam_ops\<close>, then the centre and a corner are asked whether they are legal\<close>
  "seam_read_ops = seam_ops @ [ReadLegal (1, 1), ReadLegal (0, 0)]"

definition empty_string_ops :: "op list" where
  \<comment> \<open>the empty string is put on a tile\<close>
  "empty_string_ops = [SetElement (0, 0) (Some [])]"

subsection \<open>The board in closed form\<close>

text \<open>
  The loops of \<open>Tileset.__init__\<close> written as formulas: which cells of the padded array hold
  a tile, the tile each holds, and the six cells around a position in the order of the
  wiring (left, upper left, upper right, right, lower right, lower left). \<open>fresh radius\<close>
  is the board these formulas describe; it is shown below to be the board that
  \<open>Tileset_init\<close> returns.
\<close>

definition hoffset_of :: "int \<Rightarrow> int" where
  "hoffset_of radius = (radius - 1) div 2"

definition row_count :: "int \<Rightarrow> int \<Rightarrow> int" where
  "row_count radius y = (2 * radius - 1) - \<bar>radius - (y + 1)\<bar>"

definition row_start :: "int \<Rightarrow> int \<Rightarrow> int" where
  "row_start radius y = ((2 * radius - 1) - row_count radius y) div 2"

definition on_board :: "int \<Rightarrow> int \<Rightarrow> int \<Rightarrow> bool" where
  "on_board radius y x =
     (0 \<le> y \<and> y < 2 * radius - 1 \<and>
      row_start radius y \<le> x \<and> x < row_start radius y + row_count radius y)"

definition cell :: "int \<Rightarrow> int \<Rightarrow> int \<Rightarrow> handle option" where
  "cell radius yy xx =
     (if on_board radius (yy - 1) (xx - 1) then Some (xx - 1 - hoffset_of radius, yy - 1) else None)"

definition ring :: "int \<Rightarrow> int \<Rightarrow> int \<Rightarrow> handle option list" where
  "ring radius yy xx =
     [cell radius yy (xx - 1),
      cell radius (yy - 1) (xx - (yy + 1) mod 2),
      cell radius (yy - 1) (xx - (yy + 1) mod 2 + 1),
      cell radius yy (xx + 1),
      cell radius (yy + 1) (xx - (yy + 1) mod 2 + 1),
      cell radius (yy + 1) (xx - (yy + 1) mod 2)]"

definition ring_of :: "int \<Rightarrow> handle \<Rightarrow> handle option list" where
  "ring_of radius h = ring radius (snd h + 1) (fst h + hoffset_of radius + 1)"

definition row_tiles :: "int \<Rightarrow> int \<Rightarrow> handle list" where
  "row_tiles radius y =
     map (\<lambda>x. (x - hoffset_of radius, y))
         [row_start radius y..row_start radius y + row_count radius y - 1]"

definition padded_row :: "int \<Rightarrow> int \<Rightarrow> handle option list" where
  "padded_row radius y =
     map (\<lambda>i. cell radius (y + 1) (int i)) [0..<nat (2 * radius + 1)]"

definition fresh :: "int \<Rightarrow> tileset" where
  "fresh radius =
     \<lparr>rows = blank_row (2 * radius - 1) # map (padded_row radius) [0..2 * radius - 2]
             @ [blank_row (2 * radius - 1)],
      tiles = concat (map (row_tiles radius) [0..2 * radius - 2]),
      objs = (\<lambda>h. if on_board radius (snd h) (fst h + hoffset_of radius)
                   then Tile_init\<lparr>neighbors := ring_of radius h\<rparr> else Tile_init),
      catalog = Map.empty\<rparr>"

definition ring_lookup ::
  "handle option list \<Rightarrow> handle option list \<Rightarrow> handle option list \<Rightarrow> int \<Rightarrow> nat \<Rightarrow>
   error + handle option list" where
  "ring_lookup above_row row below_row altrow x =
     sequence_err
       [py_getitem row (int x - 1),
        py_getitem above_row (int x + altrow),
        py_getitem above_row (int x + altrow + 1),
        py_getitem row (int x + 1),
        py_getitem below_row (int x + altrow + 1),
        py_getitem below_row (int x + altrow)]"

definition cells :: "int \<Rightarrow> int \<Rightarrow> handle option list" where
  "cells radius yy = map (\<lambda>i. cell radius yy (int i)) [0..<nat (2 * radius + 1)]"

text \<open>
  The step from a tile in row \<open>y\<close> to the cell in slot \<open>i\<close> of its ring: the rows above and
  below are shifted by half a tile, to the left or to the right with the parity of \<open>y\<close>.
\<close>

definition slot_dx :: "int \<Rightarrow> nat \<Rightarrow> int" where
  "slot_dx y i = [-1, - (y mod 2), 1 - y mod 2, 1, 1 - y mod 2, - (y mod 2)] ! i"

definition slot_dy :: "nat \<Rightarrow> int" where
  "slot_dy i = [0, -1, -1, 0, 1, 1] ! i"

subsection \<open>The invariant of a board in play\<close>

text \<open>
  What holds of every board that \<open>play\<close> can produce from the board \<open>b0\<close> of the
  constructor. The rows, the list of tiles and the rings are those of \<open>b0\<close>; only tiles
  of the board carry elements; the catalog lists under every element the tiles that carry
  it; and a cache that is not unknown holds the legality computed afresh.
\<close>

definition coherent :: "tileset \<Rightarrow> bool" where
  "coherent b =
     (\<forall>h. legal_cache (objs b h) = None \<or> legal_cache (objs b h) = Some (recomputed_legal b h))"

definition catalogued :: "tileset \<Rightarrow> bool" where
  "catalogued b = (\<forall>tok. catalog_getitem (catalog b) tok = {h. element (objs b h) = Some tok})"

definition invariant :: "tileset \<Rightarrow> tileset \<Rightarrow> bool" where
  "invariant b0 b =
     (rows b = rows b0 \<and> tiles b = tiles b0 \<and>
      (\<forall>h. neighbors (objs b h) = neighbors (objs b0 h)) \<and>
      (\<forall>h. h \<notin> set (tiles b0) \<longrightarrow> element (objs b h) = None) \<and>
      catalogued b \<and> coherent b)"

subsection \<open>More example boards\<close>

definition lazy_ops :: "op list" where
  \<comment> \<open>after \<open>seam_read_ops\<close>, which leaves the centre cached illegal, the fire is taken away\<close>
  "lazy_ops = seam_read_ops @ [SetElement (0, 1) None]"

definition catalog_ops :: "op list" where
  \<comment> \<open>after \<open>seam_ops\<close>, the water on (1, 0) is replaced by fire and the fire on (0, 1) taken away\<close>
  "catalog_ops = seam_ops @ [SetElement (1, 0) (Some ''fire''), SetElement (0, 1) None]"

section \<open>Properties\<close>

subsection \<open>The replay of the generator\<close>

lemma gen_classify:
  "gen heap removed ns cache cc =
     map (classify heap removed) ns @ cache @
     take cc (takeWhile snd (map (classify heap removed) ns))"
proof (induction ns arbitrary: cache cc)
  case Nil
  then show ?case by simp
next
  case (Cons n ns)
  show ?case
    by (cases cc) (auto simp: Cons.IH classify_def Let_def split: option.splits)
qed

text \<open>
  C3 (as amended). What \<open>_gen\<close> yields after the pairs of the neighbours is a prefix of
  those pairs of length at most \<open>REQUIRED_ADJACENT - 1\<close>: the pairs before the first one
  whose \<^emph>\<open>predicted\<close> component is false. A pair (False, True), produced for a nonempty
  neighbour that is in \<open>removed\<close>, does not stop the capture.
\<close>

theorem gen_replay_prefix:
  "take (length ns) (gen heap removed ns [] (REQUIRED_ADJACENT - 1)) =
     map (classify heap removed) ns \<and>
   drop (length ns) (gen heap removed ns [] (REQUIRED_ADJACENT - 1)) =
     take (REQUIRED_ADJACENT - 1) (takeWhile snd (map (classify heap removed) ns)) \<and>
   length (drop (length ns) (gen heap removed ns [] (REQUIRED_ADJACENT - 1)))
     \<le> REQUIRED_ADJACENT - 1"
  by (simp add: gen_classify)

text \<open>
  The claim as written has the capture stop at the first pair whose \<^emph>\<open>actual\<close> component
  is false. Around the centre (1, 1) of the board of radius 2, with fire on (0, 1), water
  on (1, 0) and (1, 2), and (0, 1) in \<open>removed\<close>, the first pair is (False, True) and it
  is replayed together with the pair after it.
\<close>

theorem gen_replay_counterexample:
  "gen ((\<lambda>h. Tile_init)
          ((0, 1) := \<lparr>neighbors = [], element = Some ''fire'', legal_cache = None\<rparr>,
           (1, 0) := \<lparr>neighbors = [], element = Some ''water'', legal_cache = None\<rparr>,
           (1, 2) := \<lparr>neighbors = [], element = Some ''water'', legal_cache = None\<rparr>))
       {Some (0, 1)}
       [Some (0, 1), Some (0, 0), Some (1, 0), Some (2, 1), Some (1, 2), Some (0, 2)]
       [] (REQUIRED_ADJACENT - 1)
   = [(False, True), (True, True), (False, False), (True, True), (False, False), (True, True)]
     @ [(False, True), (True, True)]
   \<and> takeWhile fst
        [(False, True), (True, True), (False, False), (True, True), (False, False), (True, True)]
      = []"
  by (simp add: gen_classify classify_def Tile_init_def REQUIRED_ADJACENT_def)

subsection \<open>Construction with a radius that is not positive\<close>

text \<open>
  C7 (as amended). \<open>Tileset.__init__\<close> does not check the radius. With a radius that is
  not positive both loops run zero times, no exception is raised, and the result is a
  board without tiles: two padding rows, no tile, an empty catalog.
\<close>

theorem Tileset_init_nonpositive_radius:
  "radius \<le> 0 \<Longrightarrow>
   Tileset_init radius =
     Inr \<lparr>rows = [blank_row (2 * radius - 1), blank_row (2 * radius - 1)], tiles = [],
          objs = (\<lambda>h. Tile_init), catalog = Map.empty\<rparr>"
  by (simp add: Tileset_init_def Let_def enumerate_eq_zip)

theorem Tileset_init_nonpositive_radius_witness:
  "(-1::int) \<le> 0 \<and>
   Tileset_init (-1) =
     Inr \<lparr>rows = [[], []], tiles = [], objs = (\<lambda>h. Tile_init), catalog = Map.empty\<rparr>"
  using Tileset_init_nonpositive_radius [of "-1"] by (simp add: blank_row_def)

text \<open>The construction with radius 0 returns a board; it does not fail.\<close>

theorem Tileset_init_zero_radius_succeeds:
  "Tileset_init 0 =
     Inr \<lparr>rows = [[None], [None]], tiles = [], objs = (\<lambda>h. Tile_init), catalog = Map.empty\<rparr>"
  by (simp add: Tileset_init_def Let_def blank_row_def enumerate_eq_zip)

subsection \<open>What a prediction leaves in the cache\<close>

lemma seam_facts:
  "\<not> isl (play 2 seam_ops)"
  "legal_cache (objs (projr (play 2 seam_ops)) (1, 1)) = None"
  "scan (gen (objs (projr (play 2 seam_ops))) {Some (0, 1)}
             (neighbors (objs (projr (play 2 seam_ops)) (1, 1))) [] (REQUIRED_ADJACENT - 1)) 0 0 False
     = Fallthrough True"
  by code_simp+

text \<open>
  C2 (as amended). When the cache of a tile is unknown and the loop of \<open>predict_legality\<close>
  runs to its end (the actual run never reached \<open>REQUIRED_ADJACENT\<close>), the cache is set
  to \<open>False\<close> whatever \<open>removed\<close> holds, empty or not, and the value returned is the
  predicted result.
\<close>

theorem predict_legality_caches_illegal:
  assumes "legal_cache (objs b self) = None"
      and "scan (gen (objs b) removed (neighbors (objs b self)) [] (REQUIRED_ADJACENT - 1)) 0 0 False
             = Fallthrough result"
  shows "predict_legality self (Some removed) b = (result, set_legal self (Some False) b) \<and>
         legal_cache (objs (snd (predict_legality self (Some removed) b)) self) = Some False"
  using assms by (simp add: predict_legality_def set_legal_def)

theorem predict_legality_caches_illegal_witness:
  "legal_cache (objs (projr (play 2 seam_ops)) (1, 1)) = None \<and>
   scan (gen (objs (projr (play 2 seam_ops))) {Some (0, 1)}
             (neighbors (objs (projr (play 2 seam_ops)) (1, 1))) [] (REQUIRED_ADJACENT - 1)) 0 0 False
     = Fallthrough True \<and>
   predict_legality (1, 1) (Some {Some (0, 1)}) (projr (play 2 seam_ops))
     = (True, set_legal (1, 1) (Some False) (projr (play 2 seam_ops)))"
  using predict_legality_caches_illegal [OF seam_facts(2) seam_facts(3)] seam_facts by simp

text \<open>
  On the board of \<open>seam_ops\<close> the centre has an unknown cache, \<open>removed\<close> holds the tile
  (0, 1), the loop runs to its end, and afterwards the cache of the centre is \<open>False\<close>:
  it was not left as it was.
\<close>

theorem predict_legality_nonempty_removed_counterexample:
  "\<not> isl (play 2 seam_ops) \<and>
   legal_cache (objs (projr (play 2 seam_ops)) (1, 1)) = None \<and>
   scan (gen (objs (projr (play 2 seam_ops))) {Some (0, 1)}
             (neighbors (objs (projr (play 2 seam_ops)) (1, 1))) [] (REQUIRED_ADJACENT - 1)) 0 0 False
     = Fallthrough True \<and>
   fst (predict_legality (1, 1) (Some {Some (0, 1)}) (projr (play 2 seam_ops))) = True \<and>
   legal_cache (objs (snd (predict_legality (1, 1) (Some {Some (0, 1)}) (projr (play 2 seam_ops)))) (1, 1))
     = Some False"
  by code_simp

subsection \<open>The notification of a changed element\<close>

lemma set_real_neighbors:
  "set (real_neighbors b t) = {n. Some n \<in> set (neighbors (objs b t))}"
proof -
  have "set (List.map_filter (\<lambda>n. n) xs) = {n. Some n \<in> set xs}" for xs :: "handle option list"
    by (induction xs) (auto split: option.splits)
  then show ?thesis by (simp add: real_neighbors_def)
qed

lemma fold_expire_legality:
  "fold (\<lambda>n. expire_legality n (Some v)) ns b =
     b\<lparr>objs := (\<lambda>h. if h \<in> set ns \<and> legal_cache (objs b h) = Some v
                     then (objs b h)\<lparr>legal_cache := None\<rparr> else objs b h)\<rparr>"
proof (induction ns arbitrary: b)
  case Nil
  then show ?case by simp
next
  case (Cons n ns)
  show ?case
    apply (simp only: fold_simps comp_apply Cons.IH)
    apply (auto simp: expire_legality_def set_legal_def fun_eq_iff)
    done
qed

lemma element_changed_result:
  assumes "element_changed t previous current b = Inr b'"
  shows "objs b' = (\<lambda>h. if h \<in> set (real_neighbors b t) \<and> (previous = None) \<noteq> (current = None)
                            \<and> legal_cache (objs b h) = Some (previous = None)
                         then (objs b h)\<lparr>legal_cache := None\<rparr> else objs b h)"
    and "rows b' = rows b" and "tiles b' = tiles b"
  using assms
  by (auto simp: element_changed_def Let_def fold_expire_legality set_real_neighbors fun_eq_iff
           split: if_splits option.splits sum.splits)

lemma element_changed_returns:
  assumes "previous = None \<or> catalog b (the previous) \<noteq> None"
  shows "\<exists>b'. element_changed t previous current b = Inr b'"
  using assms by (cases previous) (auto simp: element_changed_def Let_def)

text \<open>
  C4. \<open>element_changed\<close> returns whenever the previous element is \<open>None\<close> or has an entry
  in the catalog (the setter calls it in no other state of a board built by \<open>play\<close>:
  an element that lies on a tile was entered in the catalog when it was put there). After
  it the cache of a tile \<open>h\<close> is reset to unknown exactly when \<open>h\<close> is a real neighbour of
  the changed tile, the change is between empty and nonempty, and the cache of \<open>h\<close> held
  \<open>True\<close> (the tile gained an element) or \<open>False\<close> (it lost one). Every other cache keeps
  its value: those of tiles that are no neighbours, those of neighbours with another
  cached value, and all of them when one element replaces another. No element, no ring,
  and neither \<open>rows\<close> nor \<open>tiles\<close> is changed.
\<close>

theorem element_changed_frame:
  assumes "previous = None \<or> catalog b (the previous) \<noteq> None"
  shows "\<exists>b'. element_changed t previous current b = Inr b' \<and>
           (\<forall>h. legal_cache (objs b' h) =
                  (if h \<in> set (real_neighbors b t) \<and> (previous = None) \<noteq> (current = None)
                      \<and> legal_cache (objs b h) = Some (previous = None)
                   then None else legal_cache (objs b h)) \<and>
                element (objs b' h) = element (objs b h) \<and>
                neighbors (objs b' h) = neighbors (objs b h)) \<and>
           rows b' = rows b \<and> tiles b' = tiles b"
proof -
  obtain b' where b': "element_changed t previous current b = Inr b'"
    using element_changed_returns [OF assms] by blast
  show ?thesis
    using element_changed_result [OF b'] b' by simp
qed

lemma gain_facts:
  "\<not> isl (play 2 read_ops)"
  "real_neighbors (assign_element (0, 1) (Some ''fire'') (projr (play 2 read_ops))) (0, 1) =
     [(0, 0), (1, 1), (0, 2)]"
  "legal_cache (objs (assign_element (0, 1) (Some ''fire'') (projr (play 2 read_ops))) (0, 0)) = Some True"
  "legal_cache (objs (assign_element (0, 1) (Some ''fire'') (projr (play 2 read_ops))) (1, 1)) = Some True"
  "legal_cache (objs (assign_element (0, 1) (Some ''fire'') (projr (play 2 read_ops))) (1, 2)) = Some True"
  "legal_cache (objs (assign_element (0, 1) (Some ''fire'') (projr (play 2 read_ops))) (0, 2)) = None"
  "element (objs (projr (play 2 read_ops)) (0, 1)) = None"
  by code_simp+

lemma loss_facts:
  "\<not> isl (play 2 seam_read_ops)"
  "element (objs (projr (play 2 seam_read_ops)) (0, 1)) = Some ''fire''"
  "catalog (assign_element (0, 1) None (projr (play 2 seam_read_ops))) ''fire'' = Some {(0, 1)}"
  "real_neighbors (assign_element (0, 1) None (projr (play 2 seam_read_ops))) (0, 1) =
     [(0, 0), (1, 1), (0, 2)]"
  "legal_cache (objs (assign_element (0, 1) None (projr (play 2 seam_read_ops))) (0, 0)) = Some True"
  "legal_cache (objs (assign_element (0, 1) None (projr (play 2 seam_read_ops))) (1, 1)) = Some False"
  "legal_cache (objs (assign_element (0, 1) None (projr (play 2 seam_read_ops))) (0, 2)) = None"
  by code_simp+

lemma substitution_facts:
  "catalog (assign_element (0, 1) (Some ''air'') (projr (play 2 seam_read_ops))) ''fire'' = Some {(0, 1)}"
  "real_neighbors (assign_element (0, 1) (Some ''air'') (projr (play 2 seam_read_ops))) (0, 1) =
     [(0, 0), (1, 1), (0, 2)]"
  "legal_cache (objs (assign_element (0, 1) (Some ''air'') (projr (play 2 seam_read_ops))) (0, 0)) = Some True"
  "legal_cache (objs (assign_element (0, 1) (Some ''air'') (projr (play 2 seam_read_ops))) (1, 1)) = Some False"
  by code_simp+

text \<open>
  The three directions on the board of radius 2, each at the state in which the setter
  of the tile (0, 1) calls \<open>element_changed\<close>. Gaining fire on the empty board whose tiles
  (0, 0), (1, 1) and (1, 2) are cached legal: the neighbours (0, 0) and (1, 1) are reset,
  (1, 2), no neighbour, keeps \<open>True\<close>. Losing the fire of \<open>seam_read_ops\<close>, where the centre
  is cached illegal and the corner (0, 0) legal: the centre is reset, the corner keeps
  \<open>True\<close>. Replacing that fire by air: both keep their caches.
\<close>

theorem element_changed_frame_witness:
  "\<not> isl (element_changed (0, 1) None (Some ''fire'')
            (assign_element (0, 1) (Some ''fire'') (projr (play 2 read_ops)))) \<and>
   map (\<lambda>h. legal_cache (objs (projr (element_changed (0, 1) None (Some ''fire'')
            (assign_element (0, 1) (Some ''fire'') (projr (play 2 read_ops))))) h))
       [(0, 0), (1, 1), (1, 2), (0, 2)] = [None, None, Some True, None] \<and>
   catalog (assign_element (0, 1) None (projr (play 2 seam_read_ops))) ''fire'' = Some {(0, 1)} \<and>
   \<not> isl (element_changed (0, 1) (Some ''fire'') None
            (assign_element (0, 1) None (projr (play 2 seam_read_ops)))) \<and>
   map (\<lambda>h. legal_cache (objs (projr (element_changed (0, 1) (Some ''fire'') None
            (assign_element (0, 1) None (projr (play 2 seam_read_ops))))) h))
       [(0, 0), (1, 1), (0, 2)] = [Some True, None, None] \<and>
   \<not> isl (element_changed (0, 1) (Some ''fire'') (Some ''air'')
            (assign_element (0, 1) (Some ''air'') (projr (play 2 seam_read_ops)))) \<and>
   map (\<lambda>h. legal_cache (objs (projr (element_changed (0, 1) (Some ''fire'') (Some ''air'')
            (assign_element (0, 1) (Some ''air'') (projr (play 2 seam_read_ops))))) h))
       [(0, 0), (1, 1)] = [Some True, Some False]"
proof -
  have gain: "\<not> isl (element_changed (0, 1) None (Some ''fire'')
            (assign_element (0, 1) (Some ''fire'') (projr (play 2 read_ops)))) \<and>
     map (\<lambda>h. legal_cache (objs (projr (element_changed (0, 1) None (Some ''fire'')
            (assign_element (0, 1) (Some ''fire'') (projr (play 2 read_ops))))) h))
       [(0, 0), (1, 1), (1, 2), (0, 2)] = [None, None, Some True, None]"
    using element_changed_frame
            [of None "assign_element (0, 1) (Some ''fire'') (projr (play 2 read_ops))"
                "(0, 1)" "Some ''fire''"]
    by (auto simp: gain_facts)
  have loss: "\<not> isl (element_changed (0, 1) (Some ''fire'') None
            (assign_element (0, 1) None (projr (play 2 seam_read_ops)))) \<and>
     map (\<lambda>h. legal_cache (objs (projr (element_changed (0, 1) (Some ''fire'') None
            (assign_element (0, 1) None (projr (play 2 seam_read_ops))))) h))
       [(0, 0), (1, 1), (0, 2)] = [Some True, None, None]"
    using element_changed_frame
            [of "Some ''fire''" "assign_element (0, 1) None (projr (play 2 seam_read_ops))"
                "(0, 1)" None]
    by (auto simp: loss_facts)
  have subst: "\<not> isl (element_changed (0, 1) (Some ''fire'') (Some ''air'')
            (assign_element (0, 1) (Some ''air'') (projr (play 2 seam_read_ops)))) \<and>
     map (\<lambda>h. legal_cache (objs (projr (element_changed (0, 1) (Some ''fire'') (Some ''air'')
            (assign_element (0, 1) (Some ''air'') (projr (play 2 seam_read_ops))))) h))
       [(0, 0), (1, 1)] = [Some True, Some False]"
    using element_changed_frame
            [of "Some ''fire''" "assign_element (0, 1) (Some ''air'') (projr (play 2 seam_read_ops))"
                "(0, 1)" "Some ''air''"]
    by (auto simp: substitution_facts)
  show ?thesis
    using gain loss subst loss_facts(3) by simp
qed

subsection \<open>The bitmap and elements that are false in Python\<close>

text \<open>
  C8. \<open>bitmap\<close> tests \<open>if tile.element:\<close>, the truth value of the element, where every
  other method tests \<open>element is not None\<close>. On the board of radius 1, after the empty
  string is put on its only tile, the tile holds an element, the catalog counts one tile
  for that element, and the bitmap is 0: the occupied tile has bit 0.
\<close>

theorem bitmap_empty_string_token:
  "\<not> isl (play 1 empty_string_ops) \<and>
   tiles (projr (play 1 empty_string_ops)) = [(0, 0)] \<and>
   element (objs (projr (play 1 empty_string_ops)) (0, 0)) = Some [] \<and>
   count (projr (play 1 empty_string_ops)) [] = 1 \<and>
   bitmap (projr (play 1 empty_string_ops)) = 0"
  by code_simp

subsection \<open>The board that the constructor builds\<close>

lemma py_setitem_in_range:
  "0 \<le> i \<Longrightarrow> i < int (length xs) \<Longrightarrow> py_setitem xs i v = Inr (xs[nat i := v])"
  by (simp add: py_setitem_def py_index_def)

lemma py_getitem_in_range:
  "0 \<le> i \<Longrightarrow> i < int (length xs) \<Longrightarrow> py_getitem xs i = Inr (xs ! nat i)"
  by (simp add: py_getitem_def py_index_def)

lemma fill_row_result:
  assumes "\<forall>x\<in>set xs. 0 \<le> x + 1 \<and> x + 1 < int (length row)"
      and "objs b = (\<lambda>h. Tile_init)"
  shows "fill_row ho y xs b row =
           Inr (b\<lparr>tiles := tiles b @ map (\<lambda>x. (x - ho, y)) xs\<rparr>,
                map (\<lambda>i. if int i - 1 \<in> set xs then Some (int i - 1 - ho, y) else row ! i)
                    [0..<length row])"
  using assms
proof (induction xs arbitrary: b row)
  case Nil
  then show ?case by (simp add: map_nth)
next
  case (Cons x xs)
  have x: "0 \<le> x + 1" "x + 1 < int (length row)" using Cons.prems(1) by auto
  let ?row = "row[nat (x + 1) := Some (x - ho, y)]"
  let ?b = "b\<lparr>tiles := tiles b @ [(x - ho, y)], objs := (objs b)((x - ho, y) := Tile_init)\<rparr>"
  have objs: "objs ?b = (\<lambda>h. Tile_init)" using Cons.prems(2) by (simp add: fun_eq_iff)
  have rng: "\<forall>x\<in>set xs. 0 \<le> x + 1 \<and> x + 1 < int (length ?row)" using Cons.prems(1) by simp
  have rows_eq: "map (\<lambda>i. if int i - 1 \<in> set xs then Some (int i - 1 - ho, y) else ?row ! i)
                    [0..<length ?row] =
        map (\<lambda>i. if int i - 1 \<in> set (x # xs) then Some (int i - 1 - ho, y) else row ! i)
                    [0..<length row]"
    using x by (auto simp: nth_list_update)
  have beq: "?b\<lparr>tiles := tiles ?b @ map (\<lambda>x. (x - ho, y)) xs\<rparr> =
             b\<lparr>tiles := tiles b @ map (\<lambda>x. (x - ho, y)) (x # xs)\<rparr>"
    using Cons.prems(2) by (simp add: fun_eq_iff)
  show ?case
    using Cons.IH [OF rng objs] x rows_eq beq
    by (simp add: py_setitem_in_range Let_def)
qed

lemma row_bounds:
  assumes "0 \<le> y" "y < 2 * radius - 1"
  shows "0 \<le> row_start radius y"
    and "row_start radius y + row_count radius y \<le> 2 * radius - 1"
    and "0 < row_count radius y"
proof -
  have st: "row_start radius y = \<bar>radius - (y + 1)\<bar> div 2"
    by (simp add: row_start_def row_count_def)
  show "0 \<le> row_start radius y" unfolding st by simp
  show "row_start radius y + row_count radius y \<le> 2 * radius - 1"
    unfolding st row_count_def by linarith
  show "0 < row_count radius y"
    using assms unfolding row_count_def by linarith
qed

lemma filled_blank_row:
  assumes "0 \<le> y" "y < 2 * radius - 1"
  shows "map (\<lambda>i. if int i - 1 \<in> set [row_start radius y..row_start radius y + row_count radius y - 1]
                    then Some (int i - 1 - hoffset_of radius, y)
                    else blank_row (2 * radius - 1) ! i)
             [0..<length (blank_row (2 * radius - 1))] = padded_row radius y"
proof (rule nth_equalityI)
  show "length (map (\<lambda>i. if int i - 1 \<in> set [row_start radius y..row_start radius y + row_count radius y - 1]
                    then Some (int i - 1 - hoffset_of radius, y)
                    else blank_row (2 * radius - 1) ! i)
             [0..<length (blank_row (2 * radius - 1))]) = length (padded_row radius y)"
    by (simp add: padded_row_def blank_row_def add.commute)
next
  fix i
  assume "i < length (map (\<lambda>i. if int i - 1 \<in> set [row_start radius y..row_start radius y + row_count radius y - 1]
                    then Some (int i - 1 - hoffset_of radius, y)
                    else blank_row (2 * radius - 1) ! i)
             [0..<length (blank_row (2 * radius - 1))])"
  then have i: "i < nat (2 * radius + 1)" by (simp add: blank_row_def add.commute)
  then show "map (\<lambda>i. if int i - 1 \<in> set [row_start radius y..row_start radius y + row_count radius y - 1]
                    then Some (int i - 1 - hoffset_of radius, y)
                    else blank_row (2 * radius - 1) ! i)
             [0..<length (blank_row (2 * radius - 1))] ! i = padded_row radius y ! i"
    using assms by (auto simp: padded_row_def blank_row_def cell_def on_board_def add.commute)
qed

lemma build_rows_result:
  assumes "\<forall>y\<in>set ys. 0 \<le> y \<and> y < 2 * radius - 1"
      and "objs b = (\<lambda>h. Tile_init)"
  shows "build_rows radius ys b =
           Inr (b\<lparr>tiles := tiles b @ concat (map (row_tiles radius) ys),
                  rows := rows b @ map (padded_row radius) ys\<rparr>)"
  using assms
proof (induction ys arbitrary: b)
  case Nil
  then show ?case by simp
next
  case (Cons y ys)
  have y: "0 \<le> y" "y < 2 * radius - 1" using Cons.prems(1) by auto
  let ?xs = "[row_start radius y..row_start radius y + row_count radius y - 1]"
  have rng: "\<forall>x\<in>set ?xs. 0 \<le> x + 1 \<and> x + 1 < int (length (blank_row (2 * radius - 1)))"
    using row_bounds [OF y] by (auto simp: blank_row_def)
  have fill: "fill_row (hoffset_of radius) y ?xs b (blank_row (2 * radius - 1)) =
      Inr (b\<lparr>tiles := tiles b @ row_tiles radius y\<rparr>, padded_row radius y)"
    using fill_row_result [OF rng Cons.prems(2), of "hoffset_of radius" y] filled_blank_row [OF y]
    by (simp add: row_tiles_def)
  let ?b = "b\<lparr>tiles := tiles b @ row_tiles radius y, rows := rows b @ [padded_row radius y]\<rparr>"
  have objs: "objs ?b = (\<lambda>h. Tile_init)" using Cons.prems(2) by simp
  have ys: "\<forall>y\<in>set ys. 0 \<le> y \<and> y < 2 * radius - 1" using Cons.prems(1) by simp
  have step: "build_rows radius (y # ys) b = build_rows radius ys ?b"
    using fill by (simp add: Let_def hoffset_of_def row_count_def row_start_def)
  show ?case
    unfolding step using Cons.IH [OF ys objs] by simp
qed

lemma wire_row_result:
  assumes "\<And>x t. (x, Some t) \<in> set es \<Longrightarrow> ring_lookup above_row row below_row altrow x = Inr (f t)"
  shows "wire_row above_row row below_row altrow es heap =
           Inr (\<lambda>h. if \<exists>x. (x, Some h) \<in> set es then (heap h)\<lparr>neighbors := f h\<rparr> else heap h)"
  using assms
proof (induction es arbitrary: heap)
  case Nil
  then show ?case by simp
next
  case (Cons e es)
  obtain x tl where e: "e = (x, tl)" by (cases e)
  have rest: "\<And>x t. (x, Some t) \<in> set es \<Longrightarrow>
                ring_lookup above_row row below_row altrow x = Inr (f t)"
    by (rule Cons.prems) simp
  show ?case
  proof (cases tl)
    case None
    then show ?thesis using Cons.IH [OF rest, of heap] e by (auto simp: fun_eq_iff)
  next
    case (Some t)
    have here: "ring_lookup above_row row below_row altrow x = Inr (f t)"
      by (rule Cons.prems) (simp add: e Some)
    have "wire_row above_row row below_row altrow (e # es) heap =
          wire_row above_row row below_row altrow es (heap(t := (heap t)\<lparr>neighbors := f t\<rparr>))"
      using here unfolding e Some wire_row.simps ring_lookup_def by simp
    then show ?thesis
      using Cons.IH [OF rest, of "heap(t := (heap t)\<lparr>neighbors := f t\<rparr>)"] e Some
      by (auto simp: fun_eq_iff)
  qed
qed

lemma wire_rows_result:
  assumes "\<And>y row x t. (y, row) \<in> set es \<Longrightarrow> y \<noteq> 0 \<Longrightarrow> int y \<le> diameter \<Longrightarrow>
             (x, Some t) \<in> set (enumerate 0 row) \<Longrightarrow>
             (\<exists>a c. py_getitem all_rows (int y - 1) = Inr a \<and> py_getitem all_rows (int y + 1) = Inr c \<and>
                    ring_lookup a row c (- ((int y + 1) mod 2)) x = Inr (f t))"
      and "\<And>y row. (y, row) \<in> set es \<Longrightarrow> y \<noteq> 0 \<Longrightarrow> int y \<le> diameter \<Longrightarrow>
             (\<exists>a c. py_getitem all_rows (int y - 1) = Inr a \<and> py_getitem all_rows (int y + 1) = Inr c)"
  shows "wire_rows diameter all_rows es heap =
           Inr (\<lambda>h. if \<exists>y row. (y, row) \<in> set es \<and> y \<noteq> 0 \<and> int y \<le> diameter \<and> Some h \<in> set row
                     then (heap h)\<lparr>neighbors := f h\<rparr> else heap h)"
  using assms
proof (induction es arbitrary: heap)
  case Nil
  then show ?case by simp
next
  case (Cons e es)
  obtain y row where e: "e = (y, row)" by (cases e)
  have rest1: "\<And>y row x t. (y, row) \<in> set es \<Longrightarrow> y \<noteq> 0 \<Longrightarrow> int y \<le> diameter \<Longrightarrow>
             (x, Some t) \<in> set (enumerate 0 row) \<Longrightarrow>
             (\<exists>a c. py_getitem all_rows (int y - 1) = Inr a \<and> py_getitem all_rows (int y + 1) = Inr c \<and>
                    ring_lookup a row c (- ((int y + 1) mod 2)) x = Inr (f t))"
    by (rule Cons.prems(1)) simp_all
  have rest2: "\<exists>a c. py_getitem all_rows (int y - 1) = Inr a \<and> py_getitem all_rows (int y + 1) = Inr c"
    if "(y, row) \<in> set es" "y \<noteq> 0" "int y \<le> diameter" for y row
    using Cons.prems(2) [of y row] that by simp
  note IH = Cons.IH [OF rest1 rest2]
  show ?case
  proof (cases "y = 0 \<or> int y > diameter")
    case True
    then show ?thesis using IH [where heap = heap] e by (auto simp: fun_eq_iff)
  next
    case False
    then have y: "y \<noteq> 0" "int y \<le> diameter" by auto
    obtain a c where ac: "py_getitem all_rows (int y - 1) = Inr a"
        "py_getitem all_rows (int y + 1) = Inr c"
      using Cons.prems(2) [of y row] e y by auto
    have ring: "ring_lookup a row c (- ((int y + 1) mod 2)) x = Inr (f t)"
      if "(x, Some t) \<in> set (enumerate 0 row)" for x t
      using Cons.prems(1) [of y row x t] e y that ac by auto
    have row: "wire_row a row c (- ((int y + 1) mod 2)) (enumerate 0 row) heap =
        Inr (\<lambda>h. if \<exists>x. (x, Some h) \<in> set (enumerate 0 row)
                  then (heap h)\<lparr>neighbors := f h\<rparr> else heap h)"
      by (rule wire_row_result) (rule ring)
    have ex: "(\<exists>x. (x, Some h) \<in> set (enumerate 0 row)) = (Some h \<in> set row)" for h
    proof
      assume "\<exists>x. (x, Some h) \<in> set (enumerate 0 row)"
      then show "Some h \<in> set row" by (auto simp: in_set_enumerate_eq dest: nth_mem)
    next
      assume "Some h \<in> set row"
      then obtain i where "i < length row" "row ! i = Some h" by (auto simp: in_set_conv_nth)
      then have "(i, Some h) \<in> set (enumerate 0 row)" by (simp add: in_set_enumerate_eq)
      then show "\<exists>x. (x, Some h) \<in> set (enumerate 0 row)" by blast
    qed
    show ?thesis
      using IH [where heap = "\<lambda>h. if Some h \<in> set row then (heap h)\<lparr>neighbors := f h\<rparr> else heap h"]
            e y ac row
      by (auto simp: fun_eq_iff ex Let_def)
  qed
qed

lemma length_rows_fresh:
  "1 \<le> radius \<Longrightarrow> length (rows (fresh radius)) = nat (2 * radius + 1)"
  by (simp add: fresh_def)

lemma length_padded_row: "length (padded_row radius y) = nat (2 * radius + 1)"
  by (simp add: padded_row_def)

lemma cell_outside:
  "yy = 0 \<or> yy = 2 * radius \<Longrightarrow> cell radius yy xx = None"
  by (auto simp: cell_def on_board_def)

lemma rows_fresh_nth:
  assumes "1 \<le> radius" "yy < nat (2 * radius + 1)"
  shows "rows (fresh radius) ! yy = map (\<lambda>i. cell radius (int yy) (int i)) [0..<nat (2 * radius + 1)]"
proof -
  consider "yy = 0" | "1 \<le> yy" "yy < nat (2 * radius)" | "yy = nat (2 * radius)"
    using assms by linarith
  then show ?thesis
  proof cases
    case 1
    then show ?thesis
      by (auto simp: fresh_def blank_row_def cell_outside intro!: nth_equalityI simp: add.commute)
  next
    case 2
    then have lt: "yy - 1 < nat (2 * radius - 1)" by linarith
    have len: "length (map (padded_row radius) [0..2 * radius - 2]) = nat (2 * radius - 1)"
      by simp
    have "rows (fresh radius) ! yy = map (padded_row radius) [0..2 * radius - 2] ! (yy - 1)"
      using 2 lt by (simp add: fresh_def nth_Cons' nth_append)
    also have "\<dots> = padded_row radius ([0..2 * radius - 2] ! (yy - 1))"
      using lt by simp
    also have "[0..2 * radius - 2] ! (yy - 1) = int yy - 1"
      using lt 2 by simp
    finally have "rows (fresh radius) ! yy = padded_row radius (int yy - 1)" .
    then show ?thesis by (simp add: padded_row_def)
  next
    case 3
    then show ?thesis
      using assms
      by (auto simp: fresh_def blank_row_def cell_outside nth_Cons' nth_append
               intro!: nth_equalityI simp: add.commute)
  qed
qed


lemma cell_Some:
  "(cell radius yy xx = Some h) =
     (on_board radius (yy - 1) (xx - 1) \<and> h = (xx - 1 - hoffset_of radius, yy - 1))"
  by (auto simp: cell_def)

lemma on_board_bounds:
  assumes "on_board radius y x"
  shows "0 \<le> y" "y \<le> 2 * radius - 2" "0 \<le> x" "x \<le> 2 * radius - 2" "1 \<le> radius"
proof -
  have y: "0 \<le> y" "y < 2 * radius - 1" using assms by (auto simp: on_board_def)
  show "0 \<le> y" "y \<le> 2 * radius - 2" "1 \<le> radius" using y by auto
  show "0 \<le> x" "x \<le> 2 * radius - 2"
    using row_bounds [OF y] assms by (auto simp: on_board_def)
qed

lemma getitem_grid:
  assumes "1 \<le> radius" "0 \<le> yy" "yy \<le> 2 * radius"
  shows "py_getitem (rows (fresh radius)) yy = Inr (cells radius yy)"
proof -
  have "nat yy < nat (2 * radius + 1)" using assms by linarith
  then show ?thesis
    using assms rows_fresh_nth [of radius "nat yy"]
    by (simp add: py_getitem_in_range length_rows_fresh cells_def)
qed

lemma getitem_cells:
  assumes "0 \<le> xx" "xx \<le> 2 * radius"
  shows "py_getitem (cells radius yy) xx = Inr (cell radius yy xx)"
proof -
  have "nat xx < nat (2 * radius + 1)" using assms by linarith
  then show ?thesis
    using assms by (simp add: py_getitem_in_range cells_def)
qed

lemma ring_lookup_cells:
  assumes "on_board radius (int y - 1) (int x - 1)"
  shows "ring_lookup (cells radius (int y - 1)) (cells radius (int y)) (cells radius (int y + 1))
           (- ((int y + 1) mod 2)) x = Inr (ring radius (int y) (int x))"
proof -
  note b = on_board_bounds [OF assms]
  have m: "0 \<le> (int y + 1) mod 2" "(int y + 1) mod 2 \<le> 1" by auto
  have g1: "py_getitem (cells radius (int y)) (int x - 1) = Inr (cell radius (int y) (int x - 1))"
    using b by (intro getitem_cells) auto
  have g2: "py_getitem (cells radius (int y - 1)) (int x + - ((int y + 1) mod 2)) =
              Inr (cell radius (int y - 1) (int x - (int y + 1) mod 2))"
    using b m getitem_cells [of "int x - (int y + 1) mod 2" radius "int y - 1"] by simp
  have g3: "py_getitem (cells radius (int y - 1)) (int x + - ((int y + 1) mod 2) + 1) =
              Inr (cell radius (int y - 1) (int x - (int y + 1) mod 2 + 1))"
    using b m getitem_cells [of "int x - (int y + 1) mod 2 + 1" radius "int y - 1"] by simp
  have g4: "py_getitem (cells radius (int y)) (int x + 1) = Inr (cell radius (int y) (int x + 1))"
    using b by (intro getitem_cells) auto
  have g5: "py_getitem (cells radius (int y + 1)) (int x + - ((int y + 1) mod 2) + 1) =
              Inr (cell radius (int y + 1) (int x - (int y + 1) mod 2 + 1))"
    using b m getitem_cells [of "int x - (int y + 1) mod 2 + 1" radius "int y + 1"] by simp
  have g6: "py_getitem (cells radius (int y + 1)) (int x + - ((int y + 1) mod 2)) =
              Inr (cell radius (int y + 1) (int x - (int y + 1) mod 2))"
    using b m getitem_cells [of "int x - (int y + 1) mod 2" radius "int y + 1"] by simp
  show ?thesis
    unfolding ring_lookup_def g1 g2 g3 g4 g5 g6 by (simp add: ring_def)
qed


lemma enumerate_rows_fresh:
  assumes "1 \<le> radius" "(y, row) \<in> set (enumerate 0 (rows (fresh radius)))"
  shows "int y \<le> 2 * radius" "row = cells radius (int y)"
proof -
  have y: "y < nat (2 * radius + 1)" "row = rows (fresh radius) ! y"
    using assms by (auto simp: in_set_enumerate_eq length_rows_fresh)
  show "int y \<le> 2 * radius" using y(1) by linarith
  show "row = cells radius (int y)"
    using rows_fresh_nth [OF assms(1) y(1)] y(2) by (simp add: cells_def)
qed

lemma enumerate_cells:
  assumes "(x, Some t) \<in> set (enumerate 0 (cells radius yy))"
  shows "on_board radius (yy - 1) (int x - 1)" "t = (int x - 1 - hoffset_of radius, yy - 1)"
proof -
  have "x < nat (2 * radius + 1)" "cells radius yy ! x = Some t"
    using assms by (auto simp: in_set_enumerate_eq cells_def)
  then have "cell radius yy (int x) = Some t" by (simp add: cells_def)
  then show "on_board radius (yy - 1) (int x - 1)" "t = (int x - 1 - hoffset_of radius, yy - 1)"
    by (simp_all add: cell_Some)
qed

lemma wired_iff_on_board:
  assumes "1 \<le> radius"
  shows "(\<exists>y row. (y, row) \<in> set (enumerate 0 (rows (fresh radius))) \<and> y \<noteq> 0 \<and>
                  int y \<le> 2 * radius - 1 \<and> Some h \<in> set row) =
         on_board radius (snd h) (fst h + hoffset_of radius)"
proof
  assume "\<exists>y row. (y, row) \<in> set (enumerate 0 (rows (fresh radius))) \<and> y \<noteq> 0 \<and>
                  int y \<le> 2 * radius - 1 \<and> Some h \<in> set row"
  then obtain y row where yr: "(y, row) \<in> set (enumerate 0 (rows (fresh radius)))"
      and h: "Some h \<in> set row" by blast
  have row: "row = cells radius (int y)" using enumerate_rows_fresh [OF assms yr] by simp
  obtain i where "cell radius (int y) (int i) = Some h"
    using h unfolding row cells_def by auto
  then show "on_board radius (snd h) (fst h + hoffset_of radius)"
    by (auto simp: cell_Some)
next
  assume on: "on_board radius (snd h) (fst h + hoffset_of radius)"
  note b = on_board_bounds [OF on]
  let ?y = "nat (snd h + 1)" and ?x = "nat (fst h + hoffset_of radius + 1)"
  have y: "?y < nat (2 * radius + 1)" "?y \<noteq> 0" "int ?y \<le> 2 * radius - 1" using b by auto
  have x: "?x < nat (2 * radius + 1)" using b by auto
  have "(?y, cells radius (int ?y)) \<in> set (enumerate 0 (rows (fresh radius)))"
    using y(1) rows_fresh_nth [OF assms y(1)]
    by (simp add: in_set_enumerate_eq length_rows_fresh assms cells_def)
  moreover have "cell radius (int ?y) (int ?x) = Some h"
    using on b by (simp add: cell_Some)
  then have "Some h \<in> set (cells radius (int ?y))"
    using x unfolding cells_def by (metis (no_types, lifting) atLeastLessThan_iff image_eqI
        le0 list.set_map set_upt)
  ultimately show "\<exists>y row. (y, row) \<in> set (enumerate 0 (rows (fresh radius))) \<and> y \<noteq> 0 \<and>
                  int y \<le> 2 * radius - 1 \<and> Some h \<in> set row"
    using y by blast
qed

lemma wire_rows_fresh:
  assumes "1 \<le> radius"
  shows "wire_rows (2 * radius - 1) (rows (fresh radius)) (enumerate 0 (rows (fresh radius)))
           (\<lambda>h. Tile_init) = Inr (objs (fresh radius))"
proof -
  have nb: "\<exists>a c. py_getitem (rows (fresh radius)) (int y - 1) = Inr a \<and>
                  py_getitem (rows (fresh radius)) (int y + 1) = Inr c"
    if "(y, row) \<in> set (enumerate 0 (rows (fresh radius)))" "y \<noteq> 0" "int y \<le> 2 * radius - 1"
    for y row
    using that assms by (simp add: getitem_grid)
  have rg: "\<exists>a c. py_getitem (rows (fresh radius)) (int y - 1) = Inr a \<and>
                  py_getitem (rows (fresh radius)) (int y + 1) = Inr c \<and>
                  ring_lookup a row c (- ((int y + 1) mod 2)) x = Inr (ring_of radius t)"
    if "(y, row) \<in> set (enumerate 0 (rows (fresh radius)))" "y \<noteq> 0" "int y \<le> 2 * radius - 1"
       "(x, Some t) \<in> set (enumerate 0 row)"
    for y row x t
  proof -
    have row: "row = cells radius (int y)" using enumerate_rows_fresh [OF assms that(1)] by simp
    note c = enumerate_cells [OF that(4) [unfolded row]]
    have "ring_of radius t = ring radius (int y) (int x)" using c(2) by (simp add: ring_of_def)
    then show ?thesis
      using that(2,3) assms ring_lookup_cells [OF c(1)] row by (simp add: getitem_grid)
  qed
  have "wire_rows (2 * radius - 1) (rows (fresh radius)) (enumerate 0 (rows (fresh radius)))
           (\<lambda>h. Tile_init) =
        Inr (\<lambda>h. if \<exists>y row. (y, row) \<in> set (enumerate 0 (rows (fresh radius))) \<and> y \<noteq> 0 \<and>
                        int y \<le> 2 * radius - 1 \<and> Some h \<in> set row
                  then Tile_init\<lparr>neighbors := ring_of radius h\<rparr> else Tile_init)"
    by (rule wire_rows_result) (use rg nb in blast)+
  also have "\<dots> = Inr (objs (fresh radius))"
    unfolding wired_iff_on_board [OF assms] by (simp add: fresh_def)
  finally show ?thesis .
qed

lemma Tileset_init_fresh: "Tileset_init radius = Inr (fresh radius)"
proof (cases "1 \<le> radius")
  case True
  let ?b0 = "\<lparr>rows = [blank_row (2 * radius - 1)], tiles = [],
               objs = (\<lambda>h. Tile_init), catalog = Map.empty\<rparr>"
  have "build_rows radius [0..2 * radius - 2] ?b0 =
          Inr (?b0\<lparr>tiles := tiles ?b0 @ concat (map (row_tiles radius) [0..2 * radius - 2]),
                   rows := rows ?b0 @ map (padded_row radius) [0..2 * radius - 2]\<rparr>)"
    by (rule build_rows_result) auto
  then show ?thesis
    using wire_rows_fresh [OF True]
    by (simp add: Tileset_init_def Let_def fresh_def)
next
  case False
  then have "\<not> on_board radius y x" for y x by (auto simp: on_board_def)
  then show ?thesis
    using False by (simp add: Tileset_init_def Let_def enumerate_eq_zip fresh_def)
qed

subsection \<open>The wiring is symmetric\<close>

lemma neighbors_fresh:
  "neighbors (objs (fresh radius) h) =
     (if on_board radius (snd h) (fst h + hoffset_of radius) then ring_of radius h else [])"
  by (simp add: fresh_def Tile_init_def)

lemma set_tiles_fresh:
  "set (tiles (fresh radius)) = {h. on_board radius (snd h) (fst h + hoffset_of radius)}"
proof (rule set_eqI)
  fix h :: handle
  obtain x y where h: "h = (x, y)" by (cases h)
  have "(h \<in> set (tiles (fresh radius))) =
        (\<exists>y'\<in>{0..2 * radius - 2}. \<exists>x'\<in>{row_start radius y'..row_start radius y' + row_count radius y' - 1}.
            h = (x' - hoffset_of radius, y'))"
    by (auto simp: fresh_def row_tiles_def)
  also have "\<dots> = (0 \<le> y \<and> y \<le> 2 * radius - 2 \<and> row_start radius y \<le> x + hoffset_of radius \<and>
                    x + hoffset_of radius \<le> row_start radius y + row_count radius y - 1)"
    unfolding h
  proof
    assume "\<exists>y'\<in>{0..2 * radius - 2}. \<exists>x'\<in>{row_start radius y'..row_start radius y' + row_count radius y' - 1}.
            (x, y) = (x' - hoffset_of radius, y')"
    then show "0 \<le> y \<and> y \<le> 2 * radius - 2 \<and> row_start radius y \<le> x + hoffset_of radius \<and>
                    x + hoffset_of radius \<le> row_start radius y + row_count radius y - 1"
      by auto
  next
    assume a: "0 \<le> y \<and> y \<le> 2 * radius - 2 \<and> row_start radius y \<le> x + hoffset_of radius \<and>
                    x + hoffset_of radius \<le> row_start radius y + row_count radius y - 1"
    show "\<exists>y'\<in>{0..2 * radius - 2}. \<exists>x'\<in>{row_start radius y'..row_start radius y' + row_count radius y' - 1}.
            (x, y) = (x' - hoffset_of radius, y')"
      by (rule bexI [of _ y], rule bexI [of _ "x + hoffset_of radius"]) (use a in auto)
  qed
  also have "\<dots> = on_board radius (snd h) (fst h + hoffset_of radius)"
    unfolding h on_board_def by auto
  finally show "(h \<in> set (tiles (fresh radius))) =
                (h \<in> {h. on_board radius (snd h) (fst h + hoffset_of radius)})" by simp
qed

lemma cell_shift:
  "cell radius (y + 1 + dy) (x + hoffset_of radius + 1 + dx) =
     (if on_board radius (y + dy) (x + dx + hoffset_of radius) then Some (x + dx, y + dy) else None)"
proof -
  have "y + 1 + dy - 1 = y + dy" "x + hoffset_of radius + 1 + dx - 1 = x + dx + hoffset_of radius"
       "x + dx + hoffset_of radius - hoffset_of radius = x + dx"
    by simp_all
  then show ?thesis unfolding cell_def by (simp only:)
qed

lemma ring_of_nth:
  assumes "i < 6"
  shows "ring_of radius (x, y) ! i =
         (if on_board radius (y + slot_dy i) (x + slot_dx y i + hoffset_of radius)
          then Some (x + slot_dx y i, y + slot_dy i) else None)"
proof -
  have m: "(y + 1 + 1) mod 2 = y mod 2" by presburger
  have ring: "ring_of radius (x, y) =
     [cell radius (y + 1 + 0) (x + hoffset_of radius + 1 + (-1)),
      cell radius (y + 1 + (-1)) (x + hoffset_of radius + 1 + (- (y mod 2))),
      cell radius (y + 1 + (-1)) (x + hoffset_of radius + 1 + (1 - y mod 2)),
      cell radius (y + 1 + 0) (x + hoffset_of radius + 1 + 1),
      cell radius (y + 1 + 1) (x + hoffset_of radius + 1 + (1 - y mod 2)),
      cell radius (y + 1 + 1) (x + hoffset_of radius + 1 + (- (y mod 2)))]"
    unfolding ring_of_def ring_def fst_conv snd_conv m by simp
  from assms consider "i = 0" | "i = 1" | "i = 2" | "i = 3" | "i = 4" | "i = 5" by linarith
  then show ?thesis
    unfolding ring cell_shift
    by cases (simp_all add: slot_dx_def slot_dy_def)
qed


lemma slot_opposite:
  assumes "i < 6"
  shows "slot_dy ((i + 3) mod 6) = - slot_dy i"
    and "slot_dx (y + slot_dy i) ((i + 3) mod 6) = - slot_dx y i"
proof -
  have m: "(y - 1) mod 2 = 1 - y mod 2" "(y + 1) mod 2 = 1 - y mod 2" by presburger+
  from assms consider "i = 0" | "i = 1" | "i = 2" | "i = 3" | "i = 4" | "i = 5" by linarith
  then show "slot_dy ((i + 3) mod 6) = - slot_dy i"
    by cases (simp_all add: slot_dy_def)
  from assms consider "i = 0" | "i = 1" | "i = 2" | "i = 3" | "i = 4" | "i = 5" by linarith
  then show "slot_dx (y + slot_dy i) ((i + 3) mod 6) = - slot_dx y i"
    by cases (simp_all add: slot_dx_def slot_dy_def m)
qed

lemma ring_of_symmetric:
  assumes "i < 6" "on_board radius (snd a) (fst a + hoffset_of radius)"
          "on_board radius (snd c) (fst c + hoffset_of radius)"
  shows "(ring_of radius c ! i = Some a) = (ring_of radius a ! ((i + 3) mod 6) = Some c)"
proof -
  obtain ax ay where a: "a = (ax, ay)" by (cases a)
  obtain cx cy where c: "c = (cx, cy)" by (cases c)
  have j: "(i + 3) mod 6 < 6" by simp
  have l: "(ring_of radius c ! i = Some a) = (ax = cx + slot_dx cy i \<and> ay = cy + slot_dy i)"
    using assms(2) unfolding a c ring_of_nth [OF assms(1)] by auto
  have r: "(ring_of radius a ! ((i + 3) mod 6) = Some c) =
           (cx = ax + slot_dx ay ((i + 3) mod 6) \<and> cy = ay + slot_dy ((i + 3) mod 6))"
    using assms(3) unfolding a c ring_of_nth [OF j] by auto
  note o1 = slot_opposite(1) [OF assms(1)]
  show ?thesis
    unfolding l r
  proof
    assume h: "ax = cx + slot_dx cy i \<and> ay = cy + slot_dy i"
    have "slot_dx (cy + slot_dy i) ((i + 3) mod 6) = - slot_dx cy i"
      by (rule slot_opposite(2) [OF assms(1)])
    then have "slot_dx ay ((i + 3) mod 6) = - slot_dx cy i"
      using h by (simp only:)
    then show "cx = ax + slot_dx ay ((i + 3) mod 6) \<and> cy = ay + slot_dy ((i + 3) mod 6)"
      using h o1 by linarith
  next
    assume h: "cx = ax + slot_dx ay ((i + 3) mod 6) \<and> cy = ay + slot_dy ((i + 3) mod 6)"
    then have y: "ay = cy + slot_dy i" using o1 by linarith
    have "slot_dx (cy + slot_dy i) ((i + 3) mod 6) = - slot_dx cy i"
      by (rule slot_opposite(2) [OF assms(1)])
    then have "slot_dx ay ((i + 3) mod 6) = - slot_dx cy i"
      unfolding y .
    then show "ax = cx + slot_dx cy i \<and> ay = cy + slot_dy i"
      using h y by linarith
  qed
qed


lemma length_ring_of: "length (ring_of radius h) = 6"
  by (simp add: ring_of_def ring_def)

text \<open>
  C10. On the board that the constructor returns, every tile has a ring of six slots,
  and for two tiles \<open>a\<close> and \<open>c\<close> of the board and a slot \<open>i\<close>: \<open>a\<close> is in slot \<open>i\<close> of the
  ring of \<open>c\<close> exactly when \<open>c\<close> is in the opposite slot \<open>(i + 3) mod 6\<close> of the ring of \<open>a\<close>.
\<close>

theorem wiring_symmetric:
  assumes "Tileset_init radius = Inr b" "a \<in> set (tiles b)" "c \<in> set (tiles b)" "i < 6"
  shows "length (neighbors (objs b a)) = 6 \<and> length (neighbors (objs b c)) = 6 \<and>
         (neighbors (objs b c) ! i = Some a) = (neighbors (objs b a) ! ((i + 3) mod 6) = Some c)"
proof -
  have b: "b = fresh radius" using assms(1) by (simp add: Tileset_init_fresh)
  have a: "on_board radius (snd a) (fst a + hoffset_of radius)"
    and c: "on_board radius (snd c) (fst c + hoffset_of radius)"
    using assms(2,3) unfolding b set_tiles_fresh by simp_all
  show ?thesis
    unfolding b using a c ring_of_symmetric [OF assms(4) a c]
    by (simp add: neighbors_fresh length_ring_of)
qed

lemma wiring_facts:
  "\<not> isl (Tileset_init 2)"
  "(0, 1) \<in> set (tiles (projr (Tileset_init 2)))"
  "(1, 1) \<in> set (tiles (projr (Tileset_init 2)))"
  "neighbors (objs (projr (Tileset_init 2)) (1, 1)) ! 0 = Some (0, 1)"
  "neighbors (objs (projr (Tileset_init 2)) (0, 1)) ! 5 = None"
  by code_simp+

theorem wiring_symmetric_witness:
  "Tileset_init 2 = Inr (projr (Tileset_init 2)) \<and>
   (0, 1) \<in> set (tiles (projr (Tileset_init 2))) \<and>
   (1, 1) \<in> set (tiles (projr (Tileset_init 2))) \<and>
   neighbors (objs (projr (Tileset_init 2)) (1, 1)) ! 0 = Some (0, 1) \<and>
   neighbors (objs (projr (Tileset_init 2)) (0, 1)) ! 3 = Some (1, 1) \<and>
   neighbors (objs (projr (Tileset_init 2)) (0, 1)) ! 5 = None \<and>
   neighbors (objs (projr (Tileset_init 2)) (1, 1)) ! 2 \<noteq> Some (0, 1)"
proof -
  have ok: "Tileset_init 2 = Inr (projr (Tileset_init 2))"
    using wiring_facts(1) by simp
  show ?thesis
    using wiring_symmetric [OF ok wiring_facts(2) wiring_facts(3), of 0]
          wiring_symmetric [OF ok wiring_facts(3) wiring_facts(2), of 5]
          ok wiring_facts
    by simp
qed

subsection \<open>The loop of \<open>predict_legality\<close> on a ring of six\<close>

lemma upt6: "{0..<6::nat} = {0,1,2,3,4,5}" by auto
lemma upt3: "{0..<3::nat} = {0,1,2}" by auto

lemma circular_run6:
  "circular_run 3 [a,b,c,d,e,f] = ((a \<and> b \<and> c) \<or> (b \<and> c \<and> d) \<or> (c \<and> d \<and> e) \<or> (d \<and> e \<and> f) \<or> (e \<and> f \<and> a) \<or> (f \<and> a \<and> b))"
proof -
  have len: "length [a,b,c,d,e,f] = 6" by simp
  show ?thesis
    apply (simp only: circular_run_def len upt6 upt3)
    apply simp
    done
qed

lemma scan_ring6:
  assumes "p0 \<in> {(True,True),(False,True),(False,False)}" 
   "p1 \<in> {(True,True),(False,True),(False,False)}" 
   "p2 \<in> {(True,True),(False,True),(False,False)}" 
   "p3 \<in> {(True,True),(False,True),(False,False)}" 
   "p4 \<in> {(True,True),(False,True),(False,False)}" 
   "p5 \<in> {(True,True),(False,True),(False,False)}" 
  shows "scan ([p0,p1,p2,p3,p4,p5] @ take 2 (takeWhile snd [p0,p1,p2,p3,p4,p5])) 0 0 False =
          (if circular_run 3 (map fst [p0,p1,p2,p3,p4,p5]) then Bail
           else Fallthrough (circular_run 3 (map snd [p0,p1,p2,p3,p4,p5])))"
  using assms
  apply (simp only: insert_iff empty_iff)
  apply (elim disjE)
  apply (simp_all add: circular_run6 REQUIRED_ADJACENT_def)
  done

lemma classify_range:
  "classify heap removed n \<in> {(True, True), (False, True), (False, False)}"
  by (simp add: classify_def split: option.splits)

lemma fst_classify: "fst (classify (objs b) removed n) = free_slot b n"
  by (simp add: classify_def free_slot_def split: option.splits)

lemma length6:
  assumes "length ns = 6"
  obtains n0 n1 n2 n3 n4 n5 where "ns = [n0, n1, n2, n3, n4, n5]"
proof -
  from assms obtain n0 r0 where "ns = n0 # r0" "length r0 = 5" by (cases ns) auto
  moreover then obtain n1 r1 where "r0 = n1 # r1" "length r1 = 4" by (cases r0) auto
  moreover then obtain n2 r2 where "r1 = n2 # r2" "length r2 = 3" by (cases r1) auto
  moreover then obtain n3 r3 where "r2 = n3 # r3" "length r3 = 2" by (cases r2) auto
  moreover then obtain n4 r4 where "r3 = n4 # r4" "length r4 = 1" by (cases r3) auto
  moreover then obtain n5 where "r4 = [n5]" by (cases r4) auto
  ultimately show ?thesis using that by simp
qed

lemma scan_gen_ring:
  assumes "length ns = 6"
  shows "scan (gen heap removed ns [] (REQUIRED_ADJACENT - 1)) 0 0 False =
           (if circular_run REQUIRED_ADJACENT (map (\<lambda>n. fst (classify heap removed n)) ns) then Bail
            else Fallthrough
                   (circular_run REQUIRED_ADJACENT (map (\<lambda>n. snd (classify heap removed n)) ns)))"
proof -
  obtain n0 n1 n2 n3 n4 n5 where ns: "ns = [n0, n1, n2, n3, n4, n5]"
    using assms by (rule length6)
  have k: "REQUIRED_ADJACENT - 1 = 2" by (simp add: REQUIRED_ADJACENT_def)
  have k3: "REQUIRED_ADJACENT = 3" by (simp add: REQUIRED_ADJACENT_def)
  show ?thesis
    unfolding gen_classify k
    unfolding k3 ns
    using scan_ring6 [OF classify_range [of heap removed n0] classify_range [of heap removed n1]
                         classify_range [of heap removed n2] classify_range [of heap removed n3]
                         classify_range [of heap removed n4] classify_range [of heap removed n5]]
    by (simp only: list.map append_Nil)
qed

lemma predict_legality_ring:
  assumes "length (neighbors (objs b self)) = 6"
  shows "predict_legality self removed b =
     (if legal_cache (objs b self) = Some True then (True, b)
      else if (removed = None \<or> removed = Some {}) \<and> legal_cache (objs b self) = Some False
        then (False, b)
      else if recomputed_legal b self then (True, set_legal self (Some True) b)
      else (circular_run REQUIRED_ADJACENT
              (map (\<lambda>n. snd (classify (objs b) (case removed of None \<Rightarrow> {} | Some r \<Rightarrow> r) n))
                   (neighbors (objs b self))),
            set_legal self (Some False) b))"
  unfolding predict_legality_def scan_gen_ring [OF assms] recomputed_legal_def fst_classify Let_def
  by simp


subsection \<open>The invariant is kept\<close>

lemma invariantD:
  assumes "invariant b0 b"
  shows "rows b = rows b0" "tiles b = tiles b0"
    and "neighbors (objs b h) = neighbors (objs b0 h)"
    and "h \<notin> set (tiles b0) \<Longrightarrow> element (objs b h) = None"
    and "catalogued b" "coherent b"
  using assms unfolding invariant_def by blast+

lemma invariantI:
  assumes "rows b = rows b0" "tiles b = tiles b0"
    and "\<And>h. neighbors (objs b h) = neighbors (objs b0 h)"
    and "\<And>h. h \<notin> set (tiles b0) \<Longrightarrow> element (objs b h) = None"
    and "catalogued b" "coherent b"
  shows "invariant b0 b"
  using assms unfolding invariant_def by blast

lemma coherentD:
  assumes "coherent b"
  shows "legal_cache (objs b h) = None \<or> legal_cache (objs b h) = Some (recomputed_legal b h)"
  using assms unfolding coherent_def by blast

lemma circular_run_mono:
  assumes "length ys = length xs" "\<And>i. i < length xs \<Longrightarrow> xs ! i \<Longrightarrow> ys ! i" "circular_run k xs"
  shows "circular_run k ys"
proof -
  from assms(3) obtain i where i: "i < length xs" "\<forall>j\<in>{0..<k}. xs ! ((i + j) mod length xs)"
    by (auto simp: circular_run_def)
  have pos: "0 < length xs" using i(1) by linarith
  have "ys ! ((i + j) mod length ys)" if "j \<in> {0..<k}" for j
  proof -
    have "(i + j) mod length xs < length xs" using pos by simp
    moreover have "xs ! ((i + j) mod length xs)" using i(2) that by blast
    ultimately show ?thesis using assms(1,2) by simp
  qed
  then have "\<forall>j\<in>{0..<k}. ys ! ((i + j) mod length ys)" by blast
  moreover have "i \<in> {0..<length ys}" using i(1) assms(1) by simp
  ultimately show ?thesis unfolding circular_run_def by blast
qed

lemma recomputed_legal_mono:
  assumes "neighbors (objs b' h) = neighbors (objs b h)"
      and "\<And>n. Some n \<in> set (neighbors (objs b h)) \<Longrightarrow> element (objs b n) = None \<Longrightarrow>
                 element (objs b' n) = None"
      and "recomputed_legal b h"
  shows "recomputed_legal b' h"
proof -
  let ?ring = "neighbors (objs b h)"
  have step: "map (free_slot b') ?ring ! i"
    if "i < length (map (free_slot b) ?ring)" "map (free_slot b) ?ring ! i" for i
  proof (cases "?ring ! i")
    case None
    then show ?thesis using that by (simp add: free_slot_def)
  next
    case (Some n)
    have "?ring ! i \<in> set ?ring" using that(1) by simp
    then have "Some n \<in> set ?ring" using Some by simp
    then show ?thesis using that Some assms(2) [of n] by (simp add: free_slot_def)
  qed
  have "circular_run REQUIRED_ADJACENT (map (free_slot b') ?ring)"
    by (rule circular_run_mono [where xs = "map (free_slot b) ?ring"])
       (use step assms(3) in \<open>simp_all add: recomputed_legal_def\<close>)
  then show ?thesis unfolding recomputed_legal_def assms(1) .
qed

lemma recomputed_legal_cong:
  assumes "neighbors (objs b' h) = neighbors (objs b h)"
      and "\<And>n. Some n \<in> set (neighbors (objs b h)) \<Longrightarrow>
                 (element (objs b' n) = None) = (element (objs b n) = None)"
  shows "recomputed_legal b' h = recomputed_legal b h"
proof
  assume "recomputed_legal b' h"
  then show "recomputed_legal b h"
    by (rule recomputed_legal_mono [rotated 2]) (use assms in simp_all)
next
  assume "recomputed_legal b h"
  then show "recomputed_legal b' h"
    by (rule recomputed_legal_mono [rotated 2]) (use assms in simp_all)
qed

lemma set_legal_fields:
  "rows (set_legal self v b) = rows b" "tiles (set_legal self v b) = tiles b"
  "catalog (set_legal self v b) = catalog b"
  "neighbors (objs (set_legal self v b) h) = neighbors (objs b h)"
  "element (objs (set_legal self v b) h) = element (objs b h)"
  "legal_cache (objs (set_legal self v b) h) = (if h = self then v else legal_cache (objs b h))"
  by (simp_all add: set_legal_def)

lemma recomputed_legal_set_legal:
  "recomputed_legal (set_legal self v b) h = recomputed_legal b h"
  by (rule recomputed_legal_cong) (simp_all add: set_legal_fields)

lemma snd_classify_empty: "snd (classify (objs b) {} n) = free_slot b n"
  by (simp add: classify_def free_slot_def split: option.splits)

lemma invariant_set_legal:
  assumes "invariant b0 b"
  shows "invariant b0 (set_legal self (Some (recomputed_legal b self)) b)"
proof (rule invariantI)
  show "catalogued (set_legal self (Some (recomputed_legal b self)) b)"
    using invariantD(5) [OF assms] by (simp add: catalogued_def set_legal_fields)
  show "coherent (set_legal self (Some (recomputed_legal b self)) b)"
    unfolding coherent_def recomputed_legal_set_legal set_legal_fields
    using coherentD [OF invariantD(6) [OF assms]] by simp
qed (use invariantD [OF assms] in \<open>simp_all add: set_legal_fields\<close>)

lemma predict_legality_snd:
  assumes "length (neighbors (objs b self)) = 6"
  shows "snd (predict_legality self removed b) = b \<or>
         snd (predict_legality self removed b) = set_legal self (Some (recomputed_legal b self)) b"
  unfolding predict_legality_ring [OF assms] by simp

lemma predict_legality_invariant:
  assumes "invariant b0 b" "length (neighbors (objs b0 self)) = 6"
  shows "invariant b0 (snd (predict_legality self removed b))"
proof -
  have len: "length (neighbors (objs b self)) = 6"
    using assms(2) invariantD(3) [OF assms(1)] by simp
  show ?thesis
    using predict_legality_snd [OF len, of removed] invariant_set_legal [OF assms(1), of self] assms(1)
    by metis
qed

lemma legal_recomputed:
  assumes "invariant b0 b" "length (neighbors (objs b0 self)) = 6"
  shows "fst (legal self b) = recomputed_legal b self"
proof -
  have len: "length (neighbors (objs b self)) = 6"
    using assms(2) invariantD(3) [OF assms(1)] by simp
  have free: "(\<lambda>n. snd (classify (objs b) {} n)) = free_slot b"
    by (simp add: fun_eq_iff snd_classify_empty)
  have c: "legal_cache (objs b self) = None \<or>
           legal_cache (objs b self) = Some (recomputed_legal b self)"
    by (rule coherentD [OF invariantD(6) [OF assms(1)]])
  show ?thesis
  proof (cases "recomputed_legal b self")
    case True
    then show ?thesis
      using c unfolding legal_def predict_legality_ring [OF len] by auto
  next
    case False
    then show ?thesis
      using c unfolding legal_def predict_legality_ring [OF len]
      by (auto simp: free recomputed_legal_def)
  qed
qed


lemma assign_element_fields:
  "rows (assign_element t v b) = rows b" "tiles (assign_element t v b) = tiles b"
  "catalog (assign_element t v b) = catalog b"
  "neighbors (objs (assign_element t v b) h) = neighbors (objs b h)"
  "element (objs (assign_element t v b) h) = (if h = t then v else element (objs b h))"
  "legal_cache (objs (assign_element t v b) h) = legal_cache (objs b h)"
  "real_neighbors (assign_element t v b) h = real_neighbors b h"
  by (simp_all add: assign_element_def real_neighbors_def)

lemma element_changed_catalog:
  assumes "element_changed t previous current b = Inr b'" "previous \<noteq> current"
  shows "catalog_getitem (catalog b') tok =
           (if current = Some tok then insert t (catalog_getitem (catalog b) tok)
            else if previous = Some tok then catalog_getitem (catalog b) tok - {t}
            else catalog_getitem (catalog b) tok)"
proof -
  obtain cat2 where b': "catalog b' = cat2"
      and cat2: "cat2 = (case current of None \<Rightarrow>
                          (case previous of None \<Rightarrow> catalog b
                           | Some p \<Rightarrow> (catalog b)(p \<mapsto> the (catalog b p) - {t}))
                        | Some c \<Rightarrow>
                          (case previous of None \<Rightarrow> catalog b
                           | Some p \<Rightarrow> (catalog b)(p \<mapsto> the (catalog b p) - {t}))
                          (c \<mapsto> insert t (case (case previous of None \<Rightarrow> catalog b
                                  | Some p \<Rightarrow> (catalog b)(p \<mapsto> the (catalog b p) - {t})) c of
                                  None \<Rightarrow> {} | Some s \<Rightarrow> s)))"
      and ok: "previous = None \<or> catalog b (the previous) \<noteq> None"
    using assms
    by (auto simp: element_changed_def Let_def fold_expire_legality
             split: if_splits option.splits)
  show ?thesis
    unfolding b' cat2 using ok assms(2)
    by (cases previous; cases current) (auto simp: catalog_getitem_def split: option.splits)
qed


lemma set_element_invariant:
  assumes inv: "invariant b0 b" and t: "t \<in> set (tiles b0)"
      and sym: "\<And>h. Some t \<in> set (neighbors (objs b0 h)) \<Longrightarrow> Some h \<in> set (neighbors (objs b0 t))"
  shows "\<exists>b'. set_element t v b = Inr b' \<and> invariant b0 b' \<and>
              (\<forall>h. element (objs b' h) = (if h = t then v else element (objs b h)))"
proof (cases "v = element (objs b t)")
  case True
  then show ?thesis using inv by (simp add: set_element_def)
next
  case False
  define prev where "prev = element (objs b t)"
  define b1 where "b1 = assign_element t v b"
  have neq: "prev \<noteq> v" using False by (simp add: prev_def)
  have cat: "catalog_getitem (catalog b) tok = {h. element (objs b h) = Some tok}" for tok
    using invariantD(5) [OF inv] by (simp add: catalogued_def)
  have ok: "prev = None \<or> catalog b1 (the prev) \<noteq> None"
  proof (cases prev)
    case None
    then show ?thesis by simp
  next
    case (Some p)
    then have "t \<in> catalog_getitem (catalog b) p" unfolding cat by (simp add: prev_def)
    then have "catalog b p \<noteq> None" by (auto simp: catalog_getitem_def split: option.splits)
    then show ?thesis using Some by (simp add: b1_def assign_element_fields)
  qed
  obtain b' where b': "element_changed t prev v b1 = Inr b'"
    using element_changed_returns [OF ok] by blast
  have run: "set_element t v b = Inr b'"
    using False b' by (simp add: set_element_def Let_def prev_def b1_def)
  note res = element_changed_result [OF b']
  have el: "element (objs b' h) = (if h = t then v else element (objs b h))" for h
    unfolding res(1) by (simp add: b1_def assign_element_fields)
  have nb: "neighbors (objs b' h) = neighbors (objs b h)" for h
    unfolding res(1) by (simp add: b1_def assign_element_fields)
  have cache: "legal_cache (objs b' h) =
                 (if h \<in> set (real_neighbors b t) \<and> (prev = None) \<noteq> (v = None) \<and>
                     legal_cache (objs b h) = Some (prev = None)
                  then None else legal_cache (objs b h))" for h
    unfolding res(1) by (simp add: b1_def assign_element_fields)
  have catd: "catalogued b'"
    unfolding catalogued_def
  proof
    fix tok
    have "catalog_getitem (catalog b') tok =
           (if v = Some tok then insert t (catalog_getitem (catalog b1) tok)
            else if prev = Some tok then catalog_getitem (catalog b1) tok - {t}
            else catalog_getitem (catalog b1) tok)"
      by (rule element_changed_catalog [OF b' neq])
    also have "\<dots> = {h. element (objs b' h) = Some tok}"
      unfolding el using neq
      by (auto simp: b1_def assign_element_fields cat prev_def)
    finally show "catalog_getitem (catalog b') tok = {h. element (objs b' h) = Some tok}" .
  qed
  have coh: "coherent b'"
    unfolding coherent_def
  proof
    fix h
    have c: "legal_cache (objs b h) = None \<or> legal_cache (objs b h) = Some (recomputed_legal b h)"
      by (rule coherentD [OF invariantD(6) [OF inv]])
    show "legal_cache (objs b' h) = None \<or> legal_cache (objs b' h) = Some (recomputed_legal b' h)"
    proof (cases "Some t \<in> set (neighbors (objs b h))")
      case False
      have "recomputed_legal b' h = recomputed_legal b h"
        by (rule recomputed_legal_cong) (use False in \<open>auto simp: nb el\<close>)
      then show ?thesis using c by (auto simp: cache)
    next
      case True
      then have "Some h \<in> set (neighbors (objs b0 t))"
        using sym [of h] invariantD(3) [OF inv] by simp
      then have hn: "h \<in> set (real_neighbors b t)"
        using invariantD(3) [OF inv, of t] by (simp add: set_real_neighbors)
      consider (gain) "prev = None" "v \<noteq> None" | (loss) "prev \<noteq> None" "v = None"
        | (subst) "prev \<noteq> None" "v \<noteq> None"
        using neq by (cases prev; cases v) auto
      then show ?thesis
      proof cases
        case gain
        have "recomputed_legal b h" if "recomputed_legal b' h"
          using that
          by (rule recomputed_legal_mono [rotated 2]) (use gain in \<open>auto simp: nb el prev_def split: if_splits\<close>)
        then show ?thesis using c gain hn by (auto simp: cache)
      next
        case loss
        have "recomputed_legal b' h" if "recomputed_legal b h"
          using that
          by (rule recomputed_legal_mono [rotated 2]) (use loss in \<open>auto simp: nb el prev_def split: if_splits\<close>)
        then show ?thesis using c loss hn by (auto simp: cache)
      next
        case subst
        have "recomputed_legal b' h = recomputed_legal b h"
          by (rule recomputed_legal_cong) (use subst in \<open>auto simp: nb el prev_def split: if_splits\<close>)
        then show ?thesis using c subst by (auto simp: cache)
      qed
    qed
  qed
  have "invariant b0 b'"
  proof (rule invariantI)
    show "rows b' = rows b0" "tiles b' = tiles b0"
      using res(2,3) invariantD(1,2) [OF inv] by (simp_all add: b1_def assign_element_fields)
    show "neighbors (objs b' h) = neighbors (objs b0 h)" for h
      using nb invariantD(3) [OF inv] by simp
    show "element (objs b' h) = None" if "h \<notin> set (tiles b0)" for h
      using that t invariantD(4) [OF inv that] by (auto simp: el)
  qed (rule catd, rule coh)
  then show ?thesis using run el by blast
qed


lemma ring_of_member:
  assumes "Some t \<in> set (ring_of radius h)"
  obtains i where "i < 6" "ring_of radius h ! i = Some t"
    "on_board radius (snd t) (fst t + hoffset_of radius)"
    "t = (fst h + slot_dx (snd h) i, snd h + slot_dy i)"
proof -
  obtain i where i: "i < 6" "ring_of radius h ! i = Some t"
    using assms by (auto simp: in_set_conv_nth length_ring_of)
  obtain x y where h: "h = (x, y)" by (cases h)
  have "on_board radius (snd t) (fst t + hoffset_of radius) \<and>
        t = (fst h + slot_dx (snd h) i, snd h + slot_dy i)"
    using i(2) unfolding h ring_of_nth [OF i(1)] by (auto split: if_splits)
  then show ?thesis using that i by blast
qed

lemma fresh_ring_length:
  assumes "t \<in> set (tiles (fresh radius))"
  shows "length (neighbors (objs (fresh radius) t)) = 6"
  using assms by (simp add: set_tiles_fresh neighbors_fresh length_ring_of)

lemma fresh_symmetric:
  assumes "Some t \<in> set (neighbors (objs (fresh radius) h))"
  shows "Some h \<in> set (neighbors (objs (fresh radius) t))"
proof -
  have h: "on_board radius (snd h) (fst h + hoffset_of radius)"
    using assms by (auto simp: neighbors_fresh split: if_splits)
  then have "Some t \<in> set (ring_of radius h)" using assms by (simp add: neighbors_fresh)
  then obtain i where i: "i < 6" "ring_of radius h ! i = Some t"
      and t: "on_board radius (snd t) (fst t + hoffset_of radius)"
    by (rule ring_of_member)
  have "ring_of radius t ! ((i + 3) mod 6) = Some h"
    using ring_of_symmetric [OF i(1) t h] i(2) by simp
  moreover have "(i + 3) mod 6 < length (ring_of radius t)" by (simp add: length_ring_of)
  ultimately have "Some h \<in> set (ring_of radius t)" by (metis nth_mem)
  then show ?thesis using t by (simp add: neighbors_fresh)
qed

lemma fresh_irreflexive: "Some t \<notin> set (neighbors (objs (fresh radius) t))"
proof
  assume a: "Some t \<in> set (neighbors (objs (fresh radius) t))"
  then have "Some t \<in> set (ring_of radius t)" by (auto simp: neighbors_fresh split: if_splits)
  then obtain i where i: "i < 6" "t = (fst t + slot_dx (snd t) i, snd t + slot_dy i)"
    by (rule ring_of_member)
  then have z: "slot_dx (snd t) i = 0" "slot_dy i = 0"
    by (metis add_cancel_left_right fst_conv, metis add_cancel_left_right i(2) snd_conv)
  have m: "0 \<le> snd t mod 2" "snd t mod 2 \<le> 1" by auto
  from i(1) consider "i = 0" | "i = 1" | "i = 2" | "i = 3" | "i = 4" | "i = 5" by linarith
  then show False using z by cases (simp_all add: slot_dx_def slot_dy_def)
qed

lemma invariant_fresh: "invariant (fresh radius) (fresh radius)"
  by (rule invariantI)
     (simp_all add: catalogued_def coherent_def catalog_getitem_def fresh_def Tile_init_def)

lemma apply_op_invariant:
  assumes "invariant (fresh radius) b" "op_tile x \<in> set (tiles (fresh radius))"
  shows "\<exists>b'. apply_op x b = Inr b' \<and> invariant (fresh radius) b'"
proof (cases x)
  case (SetElement t v)
  then show ?thesis
    using set_element_invariant [OF assms(1), of t v] assms(2) fresh_symmetric by auto
next
  case (ReadLegal t)
  then show ?thesis
    using predict_legality_invariant [OF assms(1) fresh_ring_length, of t None] assms(2)
    by (simp add: legal_def)
next
  case (PredictLegality t removed)
  then show ?thesis
    using predict_legality_invariant [OF assms(1) fresh_ring_length, of t removed] assms(2)
    by simp
qed

lemma run_invariant:
  assumes "invariant (fresh radius) b" "set (map op_tile ops) \<subseteq> set (tiles (fresh radius))"
  shows "\<exists>b'. run ops b = Inr b' \<and> invariant (fresh radius) b'"
  using assms
proof (induction ops arbitrary: b)
  case Nil
  then show ?case by simp
next
  case (Cons x ops)
  obtain b1 where b1: "apply_op x b = Inr b1" "invariant (fresh radius) b1"
    using apply_op_invariant [OF Cons.prems(1), of x] Cons.prems(2) by auto
  show ?case
    using Cons.IH [OF b1(2)] Cons.prems(2) b1(1) by simp
qed

lemma play_invariant:
  assumes "Tileset_init radius = Inr b0" "set (map op_tile ops) \<subseteq> set (tiles b0)"
  shows "\<exists>b. play radius ops = Inr b \<and> invariant b0 b"
proof -
  have b0: "b0 = fresh radius" using assms(1) by (simp add: Tileset_init_fresh)
  show ?thesis
    using run_invariant [OF invariant_fresh, of ops radius] assms(2)
    unfolding b0 by (simp add: play_def Tileset_init_fresh)
qed

subsection \<open>Reading \<open>legal\<close> on a board in play\<close>

text \<open>
  C1. Take the board of the constructor and perform on its tiles any sequence of element
  changes, reads of \<open>legal\<close> and predictions. No step raises, and on the board reached
  the value that \<open>legal\<close> returns for a tile is the legality computed afresh from the
  elements now around it: a run, going round the ring, of \<open>REQUIRED_ADJACENT\<close> slots that
  are off the board or empty. The cache of the tile is unknown or holds that same value,
  so it is never stale in either direction.
\<close>

theorem legal_matches_recomputation:
  assumes "Tileset_init radius = Inr b0" "set (map op_tile ops) \<subseteq> set (tiles b0)"
          "t \<in> set (tiles b0)"
  shows "\<exists>b. play radius ops = Inr b \<and>
             fst (legal t b) = recomputed_legal b t \<and>
             (legal_cache (objs b t) = None \<or>
              legal_cache (objs b t) = Some (recomputed_legal b t))"
proof -
  obtain b where b: "play radius ops = Inr b" "invariant b0 b"
    using play_invariant [OF assms(1,2)] by blast
  have b0: "b0 = fresh radius" using assms(1) by (simp add: Tileset_init_fresh)
  have len: "length (neighbors (objs b0 t)) = 6"
    using assms(3) unfolding b0 by (rule fresh_ring_length)
  show ?thesis
    using b(1) legal_recomputed [OF b(2) len] coherentD [OF invariantD(6) [OF b(2)], of t]
    by blast
qed

lemma lazy_facts:
  "\<not> isl (Tileset_init 2)"
  "set (map op_tile lazy_ops) \<subseteq> set (tiles (projr (Tileset_init 2)))"
  "(1, 1) \<in> set (tiles (projr (Tileset_init 2)))"
  "\<not> isl (play 2 seam_read_ops)"
  "legal_cache (objs (projr (play 2 seam_read_ops)) (1, 1)) = Some False"
  "\<not> isl (play 2 lazy_ops)"
  "legal_cache (objs (projr (play 2 lazy_ops)) (1, 1)) = None"
  "map (free_slot (projr (play 2 lazy_ops))) (neighbors (objs (projr (play 2 lazy_ops)) (1, 1)))
     = [True, True, False, True, False, True]"
  by code_simp+

text \<open>
  On the board of radius 2 the centre is cached illegal after \<open>seam_read_ops\<close>. Taking
  the fire away resets that cache, and the next read returns \<open>True\<close>, the legality of
  the centre on the new board.
\<close>

theorem legal_matches_recomputation_witness:
  "Tileset_init 2 = Inr (projr (Tileset_init 2)) \<and>
   set (map op_tile lazy_ops) \<subseteq> set (tiles (projr (Tileset_init 2))) \<and>
   (1, 1) \<in> set (tiles (projr (Tileset_init 2))) \<and>
   play 2 lazy_ops = Inr (projr (play 2 lazy_ops)) \<and>
   legal_cache (objs (projr (play 2 seam_read_ops)) (1, 1)) = Some False \<and>
   legal_cache (objs (projr (play 2 lazy_ops)) (1, 1)) = None \<and>
   recomputed_legal (projr (play 2 lazy_ops)) (1, 1) = True \<and>
   fst (legal (1, 1) (projr (play 2 lazy_ops))) = True"
proof -
  have ok: "Tileset_init 2 = Inr (projr (Tileset_init 2))"
    using lazy_facts(1) by simp
  have rec: "recomputed_legal (projr (play 2 lazy_ops)) (1, 1) = True"
    unfolding recomputed_legal_def lazy_facts(8) by (simp add: REQUIRED_ADJACENT_def circular_run6)
  show ?thesis
    using legal_matches_recomputation [OF ok lazy_facts(2) lazy_facts(3)] ok lazy_facts rec
    by auto
qed

subsection \<open>The catalog on a board in play\<close>

text \<open>
  C6. Take the board of the constructor and perform on its tiles any sequence of element
  changes, reads of \<open>legal\<close> and predictions. No step raises (in particular a tile that
  loses an element always finds the entry of that element in the catalog), and on the
  board reached, which is the board after the last step whatever it was, the catalog read
  at any element is the set of the tiles that carry that element; \<open>count\<close> is the number
  of those tiles.
\<close>

theorem catalog_matches_elements:
  assumes "Tileset_init radius = Inr b0" "set (map op_tile ops) \<subseteq> set (tiles b0)"
  shows "\<exists>b. play radius ops = Inr b \<and>
             catalog_getitem (catalog b) tok = {h \<in> set (tiles b). element (objs b h) = Some tok} \<and>
             count b tok = card {h \<in> set (tiles b). element (objs b h) = Some tok}"
proof -
  obtain b where b: "play radius ops = Inr b" "invariant b0 b"
    using play_invariant [OF assms] by blast
  have "catalog_getitem (catalog b) tok = {h. element (objs b h) = Some tok}"
    using invariantD(5) [OF b(2)] by (simp add: catalogued_def)
  also have "\<dots> = {h \<in> set (tiles b). element (objs b h) = Some tok}"
  proof -
    have "h \<in> set (tiles b)" if "element (objs b h) = Some tok" for h
      using invariantD(4) [OF b(2), of h] invariantD(2) [OF b(2)] that
      by (cases "h \<in> set (tiles b0)") simp_all
    then show ?thesis by blast
  qed
  finally show ?thesis using b(1) by (simp add: count_def)
qed

lemma catalog_facts:
  "\<not> isl (Tileset_init 2)"
  "set (map op_tile catalog_ops) \<subseteq> set (tiles (projr (Tileset_init 2)))"
  "\<not> isl (play 2 catalog_ops)"
  "catalog_getitem (catalog (projr (play 2 catalog_ops))) ''fire'' = {(1, 0)}"
  "catalog_getitem (catalog (projr (play 2 catalog_ops))) ''water'' = {(1, 2)}"
  "catalog (projr (play 2 catalog_ops)) ''water'' = Some {(1, 2)}"
  "map (\<lambda>h. element (objs (projr (play 2 catalog_ops)) h)) [(0, 1), (1, 0), (1, 2)]
     = [None, Some ''fire'', Some ''water'']"
  by code_simp+

text \<open>
  On the board of radius 2 after \<open>catalog_ops\<close>: fire lies on (1, 0) only, water on (1, 2)
  only, and the catalog says so, the tile (0, 1) having left the entry of fire and (1, 0)
  having moved from water to fire.
\<close>

theorem catalog_matches_elements_witness:
  "Tileset_init 2 = Inr (projr (Tileset_init 2)) \<and>
   set (map op_tile catalog_ops) \<subseteq> set (tiles (projr (Tileset_init 2))) \<and>
   play 2 catalog_ops = Inr (projr (play 2 catalog_ops)) \<and>
   map (\<lambda>h. element (objs (projr (play 2 catalog_ops)) h)) [(0, 1), (1, 0), (1, 2)]
     = [None, Some ''fire'', Some ''water''] \<and>
   catalog_getitem (catalog (projr (play 2 catalog_ops))) ''fire'' = {(1, 0)} \<and>
   {h \<in> set (tiles (projr (play 2 catalog_ops))).
      element (objs (projr (play 2 catalog_ops)) h) = Some ''fire''} = {(1, 0)} \<and>
   catalog_getitem (catalog (projr (play 2 catalog_ops))) ''water'' = {(1, 2)} \<and>
   {h \<in> set (tiles (projr (play 2 catalog_ops))).
      element (objs (projr (play 2 catalog_ops)) h) = Some ''water''} = {(1, 2)} \<and>
   count (projr (play 2 catalog_ops)) ''water'' = 1"
proof -
  let ?b = "projr (play 2 catalog_ops)"
  have ok: "Tileset_init 2 = Inr (projr (Tileset_init 2))"
    using catalog_facts(1) by simp
  have p: "play 2 catalog_ops = Inr ?b"
    using catalog_facts(3) by simp
  have fire: "catalog_getitem (catalog ?b) ''fire'' =
                {h \<in> set (tiles ?b). element (objs ?b h) = Some ''fire''}"
  proof -
    obtain b where b: "play 2 catalog_ops = Inr b"
        "catalog_getitem (catalog b) ''fire'' =
           {h \<in> set (tiles b). element (objs b h) = Some ''fire''}"
      using catalog_matches_elements [OF ok catalog_facts(2), of "''fire''"] by blast
    have "?b = b" unfolding b(1) by simp
    then show ?thesis using b(2) by simp
  qed
  have water: "catalog_getitem (catalog ?b) ''water'' =
                {h \<in> set (tiles ?b). element (objs ?b h) = Some ''water''}"
  proof -
    obtain b where b: "play 2 catalog_ops = Inr b"
        "catalog_getitem (catalog b) ''water'' =
           {h \<in> set (tiles b). element (objs b h) = Some ''water''}"
      using catalog_matches_elements [OF ok catalog_facts(2), of "''water''"] by blast
    have "?b = b" unfolding b(1) by simp
    then show ?thesis using b(2) by simp
  qed
  have cnt: "count ?b ''water'' = 1"
    unfolding count_def catalog_facts(5) by simp
  show ?thesis
    using ok catalog_facts(2) p catalog_facts(7) catalog_facts(4) catalog_facts(5) cnt
          fire [unfolded catalog_facts(4), symmetric] water [unfolded catalog_facts(5), symmetric]
    by (intro conjI)
qed

subsection \<open>Legality and the element of the tile itself\<close>

lemma predict_legality_own_element:
  assumes "Some t \<notin> set (neighbors (objs b t))"
  shows "fst (predict_legality t removed (assign_element t v b)) =
         fst (predict_legality t removed b)"
proof -
  have "classify (objs (assign_element t v b)) r n = classify (objs b) r n"
    if "n \<in> set (neighbors (objs b t))" for n r
  proof (cases n)
    case None
    then show ?thesis by (simp add: classify_def)
  next
    case (Some h)
    then have "h \<noteq> t" using that assms by blast
    then show ?thesis using Some by (simp add: classify_def assign_element_fields)
  qed
  then have meq: "map (classify (objs (assign_element t v b)) r) (neighbors (objs b t)) =
             map (classify (objs b) r) (neighbors (objs b t))" for r
    by simp
  have "gen (objs (assign_element t v b)) r (neighbors (objs b t)) [] k =
             gen (objs b) r (neighbors (objs b t)) [] k" for r k
    unfolding gen_classify meq by (rule refl)
  then show ?thesis
    by (simp add: predict_legality_def assign_element_fields Let_def split: scan_result.splits)
qed

lemma predict_legality_elements:
  "element (objs (snd (predict_legality self removed b)) h) = element (objs b h)"
  by (simp add: predict_legality_def set_legal_fields Let_def split: scan_result.splits)

lemma legal_tiles_fold:
  assumes "invariant b0 b" "\<And>t. t \<in> set ts \<Longrightarrow> length (neighbors (objs b0 t)) = 6"
  shows "\<exists>b'. fold (\<lambda>t (acc, b0).
                 case legal t b0 of
                   (l, b1) \<Rightarrow> if l \<and> element (objs b1 t) \<noteq> None then (insert t acc, b1)
                              else (acc, b1)) ts (acc, b) =
               (acc \<union> {h \<in> set ts. recomputed_legal b h \<and> element (objs b h) \<noteq> None}, b') \<and>
              invariant b0 b'"
  using assms
proof (induction ts arbitrary: acc b)
  case Nil
  then show ?case by simp
next
  case (Cons t ts)
  let ?f = "\<lambda>t (acc, b0).
                 case legal t b0 of
                   (l, b1) \<Rightarrow> if l \<and> element (objs b1 t) \<noteq> None then (insert t acc, b1)
                              else (acc, b1)"
  let ?b1 = "snd (legal t b)"
  let ?acc = "if recomputed_legal b t \<and> element (objs b t) \<noteq> None then insert t acc else acc"
  have len: "length (neighbors (objs b0 t))= 6" using Cons.prems(2) by simp
  have l: "fst (legal t b) = recomputed_legal b t"
    by (rule legal_recomputed [OF Cons.prems(1) len])
  have inv1: "invariant b0 ?b1"
    unfolding legal_def by (rule predict_legality_invariant [OF Cons.prems(1) len])
  have el: "element (objs ?b1 h) = element (objs b h)" for h
    unfolding legal_def by (rule predict_legality_elements)
  have rec: "recomputed_legal ?b1 h = recomputed_legal b h" for h
    by (rule recomputed_legal_cong)
       (simp_all add: el invariantD(3) [OF inv1] invariantD(3) [OF Cons.prems(1)])
  have lens: "\<And>t. t \<in> set ts \<Longrightarrow> length (neighbors (objs b0 t)) = 6"
    using Cons.prems(2) by simp
  have "?f t (acc, b) = (case (fst (legal t b), ?b1) of
                   (l, b1) \<Rightarrow> if l \<and> element (objs b1 t) \<noteq> None then (insert t acc, b1)
                              else (acc, b1))"
    by simp
  also have "\<dots> = (?acc, ?b1)"
    unfolding l by (auto simp: el)
  finally have step: "?f t (acc, b) = (?acc, ?b1)" .
  have unfold: "fold ?f (t # ts) (acc, b) = fold ?f ts (?acc, ?b1)"
    unfolding fold_simps comp_apply step by (rule refl)
  obtain b' where b': "fold ?f ts (?acc, ?b1) =
      (?acc \<union> {h \<in> set ts. recomputed_legal ?b1 h \<and> element (objs ?b1 h) \<noteq> None}, b')"
      "invariant b0 b'"
    using Cons.IH [OF inv1 lens, of ?acc] by blast
  have sets: "?acc \<union> {h \<in> set ts. recomputed_legal ?b1 h \<and> element (objs ?b1 h) \<noteq> None} =
              acc \<union> {h \<in> set (t # ts). recomputed_legal b h \<and> element (objs b h) \<noteq> None}"
    unfolding rec el by auto
  show ?case
    unfolding unfold b'(1) sets using b'(2) by blast
qed

lemma legal_tiles_invariant:
  assumes "invariant (fresh radius) b"
  shows "fst (legal_tiles b) =
           {h \<in> set (tiles b). recomputed_legal b h \<and> element (objs b h) \<noteq> None}"
proof -
  have "\<And>t. t \<in> set (tiles b) \<Longrightarrow> length (neighbors (objs (fresh radius) t)) = 6"
    using invariantD(2) [OF assms] fresh_ring_length by simp
  from legal_tiles_fold [OF assms this, of "tiles b" "{}"]
  show ?thesis unfolding legal_tiles_def by auto
qed

text \<open>
  C9. On every board that \<open>play\<close> reaches from the board of the constructor, and for
  every tile \<open>t\<close> of it: writing any element \<open>v\<close> into the field of \<open>t\<close> leaves the value
  of \<open>legal\<close> of \<open>t\<close> as it was, so the computation does not depend on the element of the
  tile itself; an empty tile whose ring has a run of \<open>REQUIRED_ADJACENT\<close> free slots has
  \<open>legal\<close> true and yet is not among \<open>legal_tiles\<close>; and \<open>legal_tiles\<close> is the set of the
  tiles that are legal and carry an element.
\<close>

theorem legality_ignores_own_element:
  assumes "Tileset_init radius = Inr b0" "set (map op_tile ops) \<subseteq> set (tiles b0)"
          "t \<in> set (tiles b0)"
  shows "\<exists>b. play radius ops = Inr b \<and>
             fst (legal t (assign_element t v b)) = fst (legal t b) \<and>
             (element (objs b t) = None \<and> recomputed_legal b t \<longrightarrow>
                fst (legal t b) \<and> t \<notin> fst (legal_tiles b)) \<and>
             fst (legal_tiles b) =
               {h \<in> set (tiles b). fst (legal h b) \<and> element (objs b h) \<noteq> None}"
proof -
  obtain b where b: "play radius ops = Inr b" "invariant b0 b"
    using play_invariant [OF assms(1,2)] by blast
  have b0: "b0 = fresh radius" using assms(1) by (simp add: Tileset_init_fresh)
  have irr: "Some t \<notin> set (neighbors (objs b t))"
    using invariantD(3) [OF b(2), of t] fresh_irreflexive [of t radius] unfolding b0 by simp
  have own: "fst (legal t (assign_element t v b)) = fst (legal t b)"
    unfolding legal_def by (rule predict_legality_own_element [OF irr])
  have leg: "fst (legal h b) = recomputed_legal b h" if "h \<in> set (tiles b)" for h
  proof -
    have "length (neighbors (objs b0 h)) = 6"
      using that invariantD(2) [OF b(2)] fresh_ring_length unfolding b0 by simp
    then show ?thesis by (rule legal_recomputed [OF b(2)])
  qed
  have lt: "fst (legal_tiles b) =
              {h \<in> set (tiles b). recomputed_legal b h \<and> element (objs b h) \<noteq> None}"
    using b(2) unfolding b0 by (rule legal_tiles_invariant)
  have lt': "fst (legal_tiles b) =
              {h \<in> set (tiles b). fst (legal h b) \<and> element (objs b h) \<noteq> None}"
    unfolding lt using leg by blast
  have tb: "t \<in> set (tiles b)" using assms(3) invariantD(2) [OF b(2)] by simp
  show ?thesis
    using b(1) own lt' leg [OF tb] by (intro exI [of _ b]) (simp add: lt)
qed

lemma corner_facts:
  "\<not> isl (Tileset_init 2)"
  "set (map op_tile seam_ops) \<subseteq> set (tiles (projr (Tileset_init 2)))"
  "(0, 0) \<in> set (tiles (projr (Tileset_init 2)))"
  "\<not> isl (play 2 seam_ops)"
  "element (objs (projr (play 2 seam_ops)) (0, 0)) = None"
  "map (free_slot (projr (play 2 seam_ops))) (neighbors (objs (projr (play 2 seam_ops)) (0, 0)))
     = [True, True, True, False, True, False]"
  "fst (legal (0, 0) (projr (play 2 seam_ops)))"
  "fst (legal (0, 0) (assign_element (0, 0) (Some ''gold'') (projr (play 2 seam_ops))))"
  by code_simp+

text \<open>
  On the board of \<open>seam_ops\<close> the corner (0, 0) is empty and three slots of its ring are
  off the board: it is legal, it stays legal when gold is written on it, and it is not
  among the legal tiles of the board.
\<close>

theorem legality_ignores_own_element_witness:
  "Tileset_init 2 = Inr (projr (Tileset_init 2)) \<and>
   set (map op_tile seam_ops) \<subseteq> set (tiles (projr (Tileset_init 2))) \<and>
   (0, 0) \<in> set (tiles (projr (Tileset_init 2))) \<and>
   play 2 seam_ops = Inr (projr (play 2 seam_ops)) \<and>
   element (objs (projr (play 2 seam_ops)) (0, 0)) = None \<and>
   recomputed_legal (projr (play 2 seam_ops)) (0, 0) \<and>
   fst (legal (0, 0) (projr (play 2 seam_ops))) \<and>
   fst (legal (0, 0) (assign_element (0, 0) (Some ''gold'') (projr (play 2 seam_ops)))) \<and>
   (0, 0) \<notin> fst (legal_tiles (projr (play 2 seam_ops)))"
proof -
  let ?b = "projr (play 2 seam_ops)"
  have ok: "Tileset_init 2 = Inr (projr (Tileset_init 2))"
    using corner_facts(1) by simp
  have p: "play 2 seam_ops = Inr ?b"
    using corner_facts(4) by simp
  have rec: "recomputed_legal ?b (0, 0)"
    unfolding recomputed_legal_def corner_facts(6) by (simp add: REQUIRED_ADJACENT_def circular_run6)
  obtain b where b: "play 2 seam_ops = Inr b"
      "element (objs b (0, 0)) = None \<and> recomputed_legal b (0, 0) \<longrightarrow>
       fst (legal (0, 0) b) \<and> (0, 0) \<notin> fst (legal_tiles b)"
    using legality_ignores_own_element [OF ok corner_facts(2) corner_facts(3), where v = None] by blast
  have "?b = b" unfolding b(1) by simp
  then have "(0, 0) \<notin> fst (legal_tiles ?b)"
    using b(2) rec corner_facts(5) by simp
  then show ?thesis
    using ok corner_facts(2,3,5,7,8) p rec by (intro conjI)
qed

end
